theory Spec2Isabelle
  imports Main "HOL-Library.AList"
begin

section \<open>The debugger connection multiplexer\<close>

text \<open>
  A shallow embedding of \<^verbatim>\<open>pkg/nuclide/debugger-hhvm-proxy/lib/ConnectionMultiplexer.js\<close>.
  The multiplexer is single-threaded and callback-driven: every callback runs to its end
  (or to its next \<^verbatim>\<open>await\<close>) before another one starts. The class is a record of its
  fields, each method a function from state to state, and each callback the event loop can
  deliver an \<open>event\<close>. Private members lose their leading underscore; \<^verbatim>\<open>_status\<close> is
  \<open>muxStatus\<close>, since \<^verbatim>\<open>ConnectionInfo\<close> has a \<open>status\<close> field of its own.
\<close>

subsection \<open>Data\<close>

text \<open>
  Modelled from the spec: the status constants, imported from \<^verbatim>\<open>DbgpSocket\<close>, which is
  not among the sources; the spec lists STARTING, RUNNING, BREAK, STOPPING, STOPPED, ERROR
  and END. A status is a JavaScript string, and the \<^verbatim>\<open>switch\<close> of
  \<^verbatim>\<open>_connectionOnStatus\<close> has no default branch: \<open>STATUS_OTHER\<close> stands for every
  string that is none of the seven constants.
\<close>

datatype status =
    STATUS_STARTING
  | STATUS_STOPPING
  | STATUS_STOPPED
  | STATUS_RUNNING
  | STATUS_BREAK
  | STATUS_ERROR
  | STATUS_END
  | STATUS_OTHER

datatype command = COMMAND_RUN | COMMAND string

text \<open>
  A \<^verbatim>\<open>Connection\<close> is an object compared by identity (\<^verbatim>\<open>===\<close>, and as a \<^verbatim>\<open>Map\<close> key).
  It is modelled by the number of the \<^verbatim>\<open>new Connection(socket)\<close> call that made it.
\<close>

type_synonym connection = nat

datatype disposable = StatusSubscription connection

record connectionInfo =
  connection :: connection
  onStatusDisposable :: disposable
  status :: status

text \<open>Of the configuration the multiplexer itself reads only \<^verbatim>\<open>endDebugWhenNoRequests\<close>.\<close>

record connectionConfig =
  endDebugWhenNoRequests :: bool

datatype dbgpConnector = DbgpConnector connectionConfig

datatype childProcess = ChildProcess

text \<open>
  Modelled from the spec: \<^verbatim>\<open>BreakpointStore\<close>, which is not among the sources. Its
  \<^verbatim>\<open>addConnection\<close> applies the breakpoints set so far to a newly attached connection
  and keeps it for later ones; the store is the list of connections it was given.
\<close>

record breakpointStore =
  storeConnections :: "connection list"

definition addConnection :: "connection \<Rightarrow> breakpointStore \<Rightarrow> breakpointStore" where
  "addConnection c b = b\<lparr>storeConnections := storeConnections b @ [c]\<rparr>"

text \<open>
  Calls the multiplexer makes on its collaborators (the event emitter, connections,
  subscriptions, the connector, the client callback, the warm-up process), in order.
\<close>

datatype effect =
    Emit status
  | ConnectionSendContinuationCommand connection command
  | ConnectionDispose connection
  | DisposableDispose disposable
  | ConnectorListen
  | ConnectorDispose
  | SendUserMessage string string string
  | FailConnection
  | Kill childProcess string

datatype error = Error string | TypeError

text \<open>
  \<open>connections\<close> is the JavaScript \<^verbatim>\<open>Map\<close>, which iterates in insertion order: an
  association list, where \<open>AList.update\<close> replaces the value of a present key in place and
  appends an absent one, as \<^verbatim>\<open>Map.prototype.set\<close> does.

  The last four fields are not fields of the class. \<open>nextConnection\<close> numbers the
  \<^verbatim>\<open>new Connection\<close> calls; \<open>awaitingStatus\<close> and \<open>awaitingDummy\<close> hold the connections
  whose \<^verbatim>\<open>_onAttach\<close> or \<^verbatim>\<open>_handleDummyConnection\<close> is suspended at its \<^verbatim>\<open>await\<close>;
  \<open>effects\<close> is the log of outgoing calls, oldest first.
\<close>

record mux =
  config :: connectionConfig
  muxStatus :: status
  enabledConnection :: "connection option"
  dummyConnection :: "connection option"
  connections :: "(connection \<times> connectionInfo) list"
  connector :: "dbgpConnector option"
  dummyRequestProcess :: "childProcess option"
  breakpointStore :: breakpointStore
  nextConnection :: nat
  awaitingStatus :: "connection list"
  awaitingDummy :: "connection list"
  effects :: "effect list"

definition newConnectionMultiplexer :: "connectionConfig \<Rightarrow> mux" where
  "newConnectionMultiplexer cfg =
     \<lparr>config = cfg, muxStatus = STATUS_STARTING, enabledConnection = None,
      dummyConnection = None, connections = [], connector = None,
      dummyRequestProcess = None, breakpointStore = \<lparr>storeConnections = []\<rparr>,
      nextConnection = 0, awaitingStatus = [], awaitingDummy = [], effects = []\<rparr>"

definition perform :: "effect \<Rightarrow> mux \<Rightarrow> mux" where
  "perform e s = s\<lparr>effects := effects s @ [e]\<rparr>"

text \<open>The statuses delivered to \<^verbatim>\<open>onStatus\<close> subscribers, oldest first.\<close>

fun emitted :: "effect list \<Rightarrow> status list" where
  "emitted [] = []"
| "emitted (Emit st # es) = st # emitted es"
| "emitted (_ # es) = emitted es"

definition tracked :: "mux \<Rightarrow> connection set" where
  "tracked s = fst ` set (connections s)"

subsection \<open>Status bookkeeping\<close>

definition emitStatus :: "status \<Rightarrow> mux \<Rightarrow> mux" where
  "emitStatus st s = perform (Emit st) s"

definition setStatus :: "status \<Rightarrow> mux \<Rightarrow> mux" where
  "setStatus st s =
     (if st \<noteq> muxStatus s then emitStatus st (s\<lparr>muxStatus := st\<rparr>) else s)"

definition enableConnection :: "connection \<Rightarrow> mux \<Rightarrow> mux" where
  "enableConnection c s = setStatus STATUS_BREAK (s\<lparr>enabledConnection := Some c\<rparr>)"

definition disableConnection :: "mux \<Rightarrow> mux" where
  "disableConnection s = setStatus STATUS_RUNNING (s\<lparr>enabledConnection := None\<rparr>)"

definition checkForEnd :: "mux \<Rightarrow> mux" where
  "checkForEnd s =
     (if length (connections s) = 0 \<and>
         (connector s = None \<or> endDebugWhenNoRequests (config s))
      then setStatus STATUS_END s else s)"

definition updateStatus :: "mux \<Rightarrow> mux" where
  "updateStatus s =
     (if muxStatus s = STATUS_END then s
      else if muxStatus s = STATUS_BREAK then s
      else (case find (\<lambda>(c, connectionInfo). status connectionInfo = STATUS_BREAK)
                      (connections s) of
              Some (c, connectionInfo) \<Rightarrow> enableConnection (connection connectionInfo) s
            | None \<Rightarrow> s))"

subsection \<open>Removal and disposal\<close>

text \<open>
  A method that can throw returns the error, if any, with the state at that point.
  \<^verbatim>\<open>_removeConnection\<close> and \<^verbatim>\<open>_connectionOnStatus\<close> read a field of
  \<^verbatim>\<open>this._connections.get(connection)\<close>, a \<^verbatim>\<open>TypeError\<close> when the key is absent.
\<close>

definition removeConnection :: "connection \<Rightarrow> mux \<Rightarrow> error option \<times> mux" where
  "removeConnection c s =
     (case map_of (connections s) c of
        None \<Rightarrow> (Some TypeError, s)
      | Some info \<Rightarrow>
          let s1 = perform (DisposableDispose (onStatusDisposable info)) s;
              s2 = perform (ConnectionDispose c) s1;
              s3 = s2\<lparr>connections := AList.delete c (connections s2)\<rparr>;
              s4 = (if Some c = enabledConnection s3 then disableConnection s3 else s3)
          in (None, checkForEnd s4))"

definition disposeConnector :: "mux \<Rightarrow> mux" where
  "disposeConnector s =
     checkForEnd (case connector s of
                    Some k \<Rightarrow> perform ConnectorDispose (s\<lparr>connector := None\<rparr>)
                  | None \<Rightarrow> s)"

text \<open>
  \<^verbatim>\<open>dispose\<close> iterates over the keys of the map while \<^verbatim>\<open>_removeConnection\<close> deletes the
  key being visited and no other, so the loop visits the keys the map had at its start.
\<close>

fun removeConnections :: "connection list \<Rightarrow> mux \<Rightarrow> error option \<times> mux" where
  "removeConnections [] s = (None, s)"
| "removeConnections (c # cs) s =
     (case removeConnection c s of
        (Some e, s') \<Rightarrow> (Some e, s')
      | (None, s') \<Rightarrow> removeConnections cs s')"

definition dispose :: "mux \<Rightarrow> error option \<times> mux" where
  "dispose s =
     (case removeConnections (map fst (connections s)) s of
        (Some e, s') \<Rightarrow> (Some e, s')
      | (None, s1) \<Rightarrow>
          let s2 = (case dummyRequestProcess s1 of
                      Some p \<Rightarrow> perform (Kill p ''SIGKILL'') s1
                    | None \<Rightarrow> s1)
          in (None, disposeConnector s2))"

subsection \<open>Per-connection status handling\<close>

definition connectionOnStatus :: "connection \<Rightarrow> status \<Rightarrow> mux \<Rightarrow> error option \<times> mux" where
  "connectionOnStatus c st s =
     (case map_of (connections s) c of
        None \<Rightarrow> (Some TypeError, s)
      | Some info \<Rightarrow>
          let s1 = s\<lparr>connections := AList.update c (info\<lparr>status := st\<rparr>) (connections s)\<rparr>
          in if st = STATUS_STARTING then
               (None, perform (ConnectionSendContinuationCommand c COMMAND_RUN) s1)
             else if st = STATUS_STOPPING then
               (None, perform (ConnectionSendContinuationCommand c COMMAND_RUN) s1)
             else if st = STATUS_RUNNING then
               (None, updateStatus
                  (if Some c = enabledConnection s1 then disableConnection s1 else s1))
             else if st = STATUS_BREAK \<and> Some c = enabledConnection s1 then
               (None, emitStatus STATUS_BREAK s1)
             else if st = STATUS_STOPPED \<or> st = STATUS_ERROR \<or> st = STATUS_END then
               (case removeConnection c s1 of
                  (Some e, s2) \<Rightarrow> (Some e, s2)
                | (None, s2) \<Rightarrow> (None, updateStatus s2))
             else (None, updateStatus s1))"

subsection \<open>Listening and attaching\<close>

definition listen :: "mux \<Rightarrow> mux" where
  "listen s =
     (let s1 = s\<lparr>connector := Some (DbgpConnector (config s))\<rparr>;
          s2 = s1\<lparr>muxStatus := STATUS_RUNNING\<rparr>;
          s3 = perform ConnectorListen s2;
          s4 = perform (SendUserMessage ''console'' ''warning''
                          ''Pre-loading, please wait...'') s3
      in s4\<lparr>dummyRequestProcess := Some ChildProcess\<rparr>)"

text \<open>
  \<^verbatim>\<open>isCorrectConnection\<close> and \<^verbatim>\<open>isDummyConnection\<close> live in \<^verbatim>\<open>ConnectionUtils\<close>,
  which is not among the sources; an attach carries their verdicts on its handshake
  message.
\<close>

record attachParams =
  isCorrectConnection :: bool
  isDummyConnection :: bool

text \<open>
  An \<^verbatim>\<open>async\<close> method is split at its \<^verbatim>\<open>await\<close>: the part that runs at once, and the part
  that runs when the awaited promise settles. A promise rejects with any value: the
  \<^verbatim>\<open>catch\<close> block of \<^verbatim>\<open>_onAttach\<close> reads \<^verbatim>\<open>e.message\<close>, which gives a string (or
  \<^verbatim>\<open>undefined\<close>, logged as such) for \<open>Exception\<close> and throws for \<open>Nullish\<close>, a
  \<^verbatim>\<open>null\<close> or \<^verbatim>\<open>undefined\<close> reason.
\<close>

datatype rejection = Exception string | Nullish

datatype 'a settled = Resolved 'a | Rejected rejection

definition handleDummyConnection :: "mux \<Rightarrow> mux" where
  "handleDummyConnection s =
     (let dummyConnection = nextConnection s;
          s1 = s\<lparr>nextConnection := Suc dummyConnection\<rparr>;
          s2 = perform (ConnectionSendContinuationCommand dummyConnection COMMAND_RUN) s1
      in s2\<lparr>awaitingDummy := awaitingDummy s2 @ [dummyConnection]\<rparr>)"

definition handleDummyConnection_resume :: "connection \<Rightarrow> mux \<Rightarrow> mux" where
  "handleDummyConnection_resume d s =
     perform (SendUserMessage ''console'' ''warning''
                ''Pre-loading is done. You can use console window now.'')
       (s\<lparr>dummyConnection := Some d\<rparr>)"

definition onAttach :: "attachParams \<Rightarrow> mux \<Rightarrow> mux" where
  "onAttach params s =
     (if \<not> isCorrectConnection params then perform FailConnection s
      else if isDummyConnection params then handleDummyConnection s
      else
        let c = nextConnection s;
            s1 = s\<lparr>nextConnection := Suc c\<rparr>;
            s2 = s1\<lparr>breakpointStore := addConnection c (breakpointStore s1)\<rparr>;
            info = \<lparr>connection = c, onStatusDisposable = StatusSubscription c,
                    status = STATUS_STARTING\<rparr>;
            s3 = s2\<lparr>connections := AList.update c info (connections s2)\<rparr>
        in s3\<lparr>awaitingStatus := awaitingStatus s3 @ [c]\<rparr>)"

definition onAttach_resume :: "connection \<Rightarrow> status settled \<Rightarrow> mux \<Rightarrow> error option \<times> mux" where
  "onAttach_resume c r s =
     (case r of
        Resolved st \<Rightarrow> connectionOnStatus c st s
      | Rejected Nullish \<Rightarrow> (Some TypeError, s)
      | Rejected (Exception message) \<Rightarrow> connectionOnStatus c STATUS_ERROR s)"

definition handleAttachError :: "string \<Rightarrow> mux \<Rightarrow> mux" where
  "handleAttachError err s = perform (SendUserMessage ''notification'' ''error'' err) s"

subsection \<open>The event loop\<close>

text \<open>
  What can happen to a listening multiplexer: the connector reports an attach, its close or
  an error; a pending \<^verbatim>\<open>getStatus\<close> or the dummy's run command settles; a connection
  fires its status event; the client calls \<^verbatim>\<open>dispose\<close>. A status event reaches the
  multiplexer only through the subscription of \<^verbatim>\<open>_onAttach\<close>, which lives exactly as long
  as the connection's map entry; a settling promise resumes only a method suspended on it.
  An exception ends the callback and leaves the state as it is at the throw.
\<close>

datatype event =
    Attach attachParams
  | StatusSettled connection "status settled"
  | DummyRunSettled connection bool
  | ConnectionStatus connection status
  | ConnectorClose
  | ConnectorError string
  | Dispose

fun step :: "event \<Rightarrow> mux \<Rightarrow> mux" where
  "step (Attach params) s = onAttach params s"
| "step (StatusSettled c r) s =
     (if c \<in> set (awaitingStatus s)
      then snd (onAttach_resume c r (s\<lparr>awaitingStatus := removeAll c (awaitingStatus s)\<rparr>))
      else s)"
| "step (DummyRunSettled d ok) s =
     (if d \<in> set (awaitingDummy s)
      then let s1 = s\<lparr>awaitingDummy := removeAll d (awaitingDummy s)\<rparr>
           in if ok then handleDummyConnection_resume d s1 else s1
      else s)"
| "step (ConnectionStatus c st) s =
     (if c \<in> tracked s then snd (connectionOnStatus c st s) else s)"
| "step ConnectorClose s = disposeConnector s"
| "step (ConnectorError err) s = handleAttachError err s"
| "step Dispose s = snd (dispose s)"

fun run :: "event list \<Rightarrow> mux \<Rightarrow> mux" where
  "run [] s = s"
| "run (e # es) s = run es (step e s)"

text \<open>The state of a session: constructed, \<^verbatim>\<open>listen\<close> called, then the events in order.\<close>

definition session :: "connectionConfig \<Rightarrow> event list \<Rightarrow> mux" where
  "session cfg evs = run evs (listen (newConnectionMultiplexer cfg))"

subsection \<open>Forwarding operations\<close>

text \<open>
  A forwarding operation either hands the request to a connection and returns what that
  connection returns, or answers by itself, or fails. \<^verbatim>\<open>evaluateOnCallFrame\<close> is
  \<^verbatim>\<open>async\<close>, so its failure is a rejected promise; \<^verbatim>\<open>getScopesForFrame\<close>,
  \<^verbatim>\<open>sendContinuationCommand\<close> and \<^verbatim>\<open>getProperties\<close> throw. Both are \<open>Inl\<close> here.
\<close>

type_synonym remoteObjectId = string

datatype request =
    EvaluateOnCallFrame int string
  | GetStackFrames
  | GetScopesForFrame int
  | SendContinuationCommand command
  | SendBreakCommand
  | GetProperties remoteObjectId

datatype reply =
    Forwarded connection request
  | Stack "string list"
  | Boolean bool

definition noConnectionError :: error where
  "noConnectionError = Error ''No connection''"

definition evaluateOnCallFrame :: "int \<Rightarrow> string \<Rightarrow> mux \<Rightarrow> error + reply" where
  "evaluateOnCallFrame frameIndex expression s =
     (case enabledConnection s of
        Some c \<Rightarrow> Inr (Forwarded c (EvaluateOnCallFrame frameIndex expression))
      | None \<Rightarrow> Inl noConnectionError)"

definition getStackFrames :: "mux \<Rightarrow> error + reply" where
  "getStackFrames s =
     (case enabledConnection s of
        Some c \<Rightarrow> Inr (Forwarded c GetStackFrames)
      | None \<Rightarrow> Inr (Stack []))"

definition getScopesForFrame :: "int \<Rightarrow> mux \<Rightarrow> error + reply" where
  "getScopesForFrame frameIndex s =
     (case enabledConnection s of
        Some c \<Rightarrow> Inr (Forwarded c (GetScopesForFrame frameIndex))
      | None \<Rightarrow> Inl noConnectionError)"

definition getStatus :: "mux \<Rightarrow> status" where
  "getStatus s = muxStatus s"

definition sendContinuationCommand :: "command \<Rightarrow> mux \<Rightarrow> error + reply" where
  "sendContinuationCommand cmd s =
     (case enabledConnection s of
        Some c \<Rightarrow> Inr (Forwarded c (SendContinuationCommand cmd))
      | None \<Rightarrow> Inl noConnectionError)"

definition sendBreakCommand :: "mux \<Rightarrow> error + reply" where
  "sendBreakCommand s =
     (case enabledConnection s of
        Some c \<Rightarrow> Inr (Forwarded c SendBreakCommand)
      | None \<Rightarrow> Inr (Boolean False))"

definition getProperties :: "remoteObjectId \<Rightarrow> mux \<Rightarrow> error + reply" where
  "getProperties remoteId s =
     (let viaDummy = (case dummyConnection s of
                        Some d \<Rightarrow> Inr (Forwarded d (GetProperties remoteId))
                      | None \<Rightarrow> Inl noConnectionError)
      in case enabledConnection s of
           Some c \<Rightarrow>
             if muxStatus s = STATUS_BREAK then Inr (Forwarded c (GetProperties remoteId))
             else viaDummy
         | None \<Rightarrow> viaDummy)"

subsection \<open>Invariants of a session\<close>

text \<open>
  \<open>keysOk\<close>: every map entry's \<open>connection\<close> field is its key. \<open>enabledOk\<close>: the enabled
  connection is tracked and the global status is then BREAK. \<open>emitOk\<close>: the last status
  delivered is the current one, only RUNNING, BREAK and END are delivered, and only BREAK
  is ever delivered twice in a row. \<open>ordered\<close>: the map lists connections in the order
  they were made. \<open>separate\<close>: dummy connections, pending or installed, were never given
  to the breakpoint store, and every tracked connection was. \<open>noBreak\<close>:
  while the status is neither BREAK nor END, no map entry is cached BREAK.
\<close>

definition keysOk :: "mux \<Rightarrow> bool" where
  "keysOk s \<longleftrightarrow> (\<forall>k i. (k, i) \<in> set (connections s) \<longrightarrow> connection i = k)"

definition enabledOk :: "mux \<Rightarrow> bool" where
  "enabledOk s \<longleftrightarrow> keysOk s \<and>
     (\<forall>c. enabledConnection s = Some c \<longrightarrow> c \<in> tracked s \<and> muxStatus s = STATUS_BREAK)"

fun repeatsOnlyBreak :: "status list \<Rightarrow> bool" where
  "repeatsOnlyBreak (x # y # zs) = ((x = y \<longrightarrow> x = STATUS_BREAK) \<and> repeatsOnlyBreak (y # zs))"
| "repeatsOnlyBreak _ = True"

definition emitOk :: "mux \<Rightarrow> bool" where
  "emitOk s \<longleftrightarrow>
     (let es = emitted (effects s)
      in (es = [] \<or> last es = muxStatus s) \<and>
         set es \<subseteq> {STATUS_RUNNING, STATUS_BREAK, STATUS_END} \<and> repeatsOnlyBreak es)"

definition ordered :: "mux \<Rightarrow> bool" where
  "ordered s \<longleftrightarrow>
     sorted_wrt (<) (map fst (connections s)) \<and> (\<forall>c \<in> tracked s. c < nextConnection s)"

definition separate :: "mux \<Rightarrow> bool" where
  "separate s \<longleftrightarrow>
     tracked s \<subseteq> set (storeConnections (breakpointStore s)) \<and>
     (\<forall>c \<in> set (storeConnections (breakpointStore s)). c < nextConnection s) \<and>
     (\<forall>d \<in> set (awaitingDummy s).
        d < nextConnection s \<and> d \<notin> set (storeConnections (breakpointStore s))) \<and>
     (\<forall>d. dummyConnection s = Some d \<longrightarrow>
        d < nextConnection s \<and> d \<notin> set (storeConnections (breakpointStore s)))"

definition wf :: "mux \<Rightarrow> bool" where
  "wf s \<longleftrightarrow> enabledOk s \<and> emitOk s \<and> ordered s \<and> separate s"

text \<open>
  \<open>shrinks s s'\<close>: from \<open>s\<close> to \<open>s'\<close> no connection was made and none was added to the
  map, the store or the dummy slots; map entries may have been deleted.
\<close>

definition shrinks :: "mux \<Rightarrow> mux \<Rightarrow> bool" where
  "shrinks s s' \<longleftrightarrow>
     config s' = config s \<and> nextConnection s' = nextConnection s \<and>
     breakpointStore s' = breakpointStore s \<and> awaitingDummy s' = awaitingDummy s \<and>
     dummyConnection s' = dummyConnection s \<and>
     (\<exists>P. map fst (connections s') = filter P (map fst (connections s)))"



definition disabled :: "status list \<Rightarrow> mux \<Rightarrow> bool" where
  "disabled es s \<longleftrightarrow>
     enabledConnection s = None \<and>
     (muxStatus s = STATUS_RUNNING \<and> emitted (effects s) = es @ [STATUS_RUNNING] \<or>
      muxStatus s = STATUS_END \<and> emitted (effects s) = es @ [STATUS_RUNNING, STATUS_END])"

definition noBreak :: "mux \<Rightarrow> bool" where
  "noBreak s \<longleftrightarrow>
     (muxStatus s \<noteq> STATUS_BREAK \<and> muxStatus s \<noteq> STATUS_END \<longrightarrow>
        (\<forall>k i. (k, i) \<in> set (connections s) \<longrightarrow> status i \<noteq> STATUS_BREAK))"

subsection \<open>Sample inputs\<close>

text \<open>Configurations and attach events used where a theorem is run on a concrete session.\<close>

abbreviation keepListening :: connectionConfig where
  "keepListening \<equiv> \<lparr>endDebugWhenNoRequests = False\<rparr>"


abbreviation realAttach :: event where
  "realAttach \<equiv> Attach \<lparr>isCorrectConnection = True, isDummyConnection = False\<rparr>"

abbreviation dummyAttach :: event where
  "dummyAttach \<equiv> Attach \<lparr>isCorrectConnection = True, isDummyConnection = True\<rparr>"

abbreviation breakOnFirst :: "event list" where
  "breakOnFirst \<equiv> [realAttach, StatusSettled 0 (Resolved STATUS_BREAK)]"

abbreviation twoRunning :: "event list" where
  "twoRunning \<equiv>
     [realAttach, realAttach, StatusSettled 0 (Resolved STATUS_RUNNING),
      StatusSettled 1 (Resolved STATUS_RUNNING)]"

abbreviation firstOfTwoBroken :: "event list" where
  "firstOfTwoBroken \<equiv>
     [realAttach, realAttach, StatusSettled 0 (Resolved STATUS_BREAK),
      StatusSettled 1 (Resolved STATUS_RUNNING)]"

abbreviation bothBroken :: "event list" where
  "bothBroken \<equiv>
     [realAttach, realAttach, StatusSettled 0 (Resolved STATUS_BREAK),
      StatusSettled 1 (Resolved STATUS_BREAK)]"


abbreviation dummyReady :: "event list" where
  "dummyReady \<equiv> [dummyAttach, DummyRunSettled 0 True]"

abbreviation breakWithDummy :: "event list" where
  "breakWithDummy \<equiv>
     [realAttach, dummyAttach, DummyRunSettled 1 True, StatusSettled 0 (Resolved STATUS_BREAK)]"

abbreviation stepThenResume :: "event list" where
  "stepThenResume \<equiv>
     [realAttach, StatusSettled 0 (Resolved STATUS_BREAK), ConnectionStatus 0 STATUS_BREAK,
      ConnectionStatus 0 STATUS_RUNNING]"

abbreviation threeBroken :: "event list" where
  "threeBroken \<equiv>
     [realAttach, realAttach, realAttach, StatusSettled 0 (Resolved STATUS_BREAK),
      StatusSettled 1 (Resolved STATUS_BREAK), StatusSettled 2 (Resolved STATUS_BREAK)]"

section \<open>Basic facts\<close>

lemma emitted_append [simp]: "emitted (xs @ ys) = emitted xs @ emitted ys"
  by (induction xs rule: emitted.induct) simp_all

lemma perform_fields [simp]:
  "config (perform e s) = config s"
  "muxStatus (perform e s) = muxStatus s"
  "enabledConnection (perform e s) = enabledConnection s"
  "dummyConnection (perform e s) = dummyConnection s"
  "connections (perform e s) = connections s"
  "connector (perform e s) = connector s"
  "dummyRequestProcess (perform e s) = dummyRequestProcess s"
  "breakpointStore (perform e s) = breakpointStore s"
  "nextConnection (perform e s) = nextConnection s"
  "awaitingStatus (perform e s) = awaitingStatus s"
  "awaitingDummy (perform e s) = awaitingDummy s"
  "effects (perform e s) = effects s @ [e]"
  by (simp_all add: perform_def)

lemma setStatus_fields [simp]:
  "config (setStatus st s) = config s"
  "muxStatus (setStatus st s) = st"
  "enabledConnection (setStatus st s) = enabledConnection s"
  "dummyConnection (setStatus st s) = dummyConnection s"
  "connections (setStatus st s) = connections s"
  "connector (setStatus st s) = connector s"
  "dummyRequestProcess (setStatus st s) = dummyRequestProcess s"
  "breakpointStore (setStatus st s) = breakpointStore s"
  "nextConnection (setStatus st s) = nextConnection s"
  "awaitingStatus (setStatus st s) = awaitingStatus s"
  "awaitingDummy (setStatus st s) = awaitingDummy s"
  "effects (setStatus st s) = (if st \<noteq> muxStatus s then effects s @ [Emit st] else effects s)"
  by (simp_all add: setStatus_def emitStatus_def)

lemma tracked_simps [simp]:
  "tracked (perform e s) = tracked s"
  "tracked (setStatus st s) = tracked s"
  by (simp_all add: tracked_def)

lemma keys_delete: "fst ` set (AList.delete c al) = fst ` set al - {c}"
  by (auto simp: AList.delete_eq)

lemma keys_update: "fst ` set (AList.update c v al) = insert c (fst ` set al)"
  by (simp add: dom_update)

lemma set_update_cases:
  "(k, i) \<in> set (AList.update c v al) \<Longrightarrow> (k, i) \<in> set al \<or> (k = c \<and> i = v)"
  by (induction al) (auto split: if_splits)

lemma set_delete_subset: "(k, i) \<in> set (AList.delete c al) \<Longrightarrow> (k, i) \<in> set al"
  by (simp add: AList.delete_eq)

lemma trackedI: "(k, i) \<in> set (connections s) \<Longrightarrow> k \<in> tracked s"
  by (force simp: tracked_def)

lemma keysOk_cong:
  "connections s' = connections s \<Longrightarrow> keysOk s' = keysOk s"
  by (simp add: keysOk_def)

lemma checkForEnd_enabledOk: "enabledOk s \<Longrightarrow> enabledOk (checkForEnd s)"
  by (auto simp: enabledOk_def keysOk_def checkForEnd_def tracked_def)

lemma find_Some_set: "find P xs = Some x \<Longrightarrow> x \<in> set xs \<and> P x"
  by (induction xs) (auto split: if_splits)

lemma updateStatus_enabledOk:
  assumes "enabledOk s" shows "enabledOk (updateStatus s)"
proof (cases "find (\<lambda>(c, connectionInfo). status connectionInfo = STATUS_BREAK) (connections s)")
  case None
  with assms show ?thesis by (simp add: updateStatus_def)
next
  case (Some p)
  obtain k i where p: "p = (k, i)" by (cases p)
  from Some p have mem: "(k, i) \<in> set (connections s)" by (auto dest: find_Some_set)
  from assms have ks: "keysOk s" by (simp add: enabledOk_def)
  with mem have "connection i = k" by (auto simp: keysOk_def)
  with mem have "connection i \<in> tracked s" by (auto intro: trackedI)
  then have "enabledOk (enableConnection (connection i) s)"
    using ks by (simp add: enabledOk_def enableConnection_def tracked_def keysOk_def)
  with assms Some p show ?thesis by (simp add: updateStatus_def)
qed

lemma disable_enabledOk: "keysOk s \<Longrightarrow> enabledOk (disableConnection s)"
  by (simp add: enabledOk_def keysOk_def disableConnection_def)

lemma removeConnection_enabledOk:
  assumes ok: "enabledOk s" shows "enabledOk (snd (removeConnection c s))"
proof (cases "map_of (connections s) c")
  case None
  with ok show ?thesis by (simp add: removeConnection_def)
next
  case (Some info)
  let ?s3 = "(perform (ConnectionDispose c) (perform (DisposableDispose (onStatusDisposable info)) s))
              \<lparr>connections := AList.delete c (connections s)\<rparr>"
  have k3: "keysOk ?s3" using ok
    by (auto simp: enabledOk_def keysOk_def dest: set_delete_subset)
  let ?s4 = "if Some c = enabledConnection ?s3 then disableConnection ?s3 else ?s3"
  have s4: "enabledOk ?s4"
  proof (cases "Some c = enabledConnection ?s3")
    case True
    then show ?thesis using k3 by (simp add: disable_enabledOk)
  next
    case False
    then show ?thesis using ok k3
      by (auto simp: enabledOk_def tracked_def keys_delete)
  qed
  have eq: "snd (removeConnection c s) = checkForEnd ?s4"
    using Some by (simp add: removeConnection_def Let_def)
  show ?thesis unfolding eq by (rule checkForEnd_enabledOk) (rule s4)
qed

lemma connectionOnStatus_enabledOk:
  assumes ok: "enabledOk s" shows "enabledOk (snd (connectionOnStatus c st s))"
proof (cases "map_of (connections s) c")
  case None
  with ok show ?thesis by (simp add: connectionOnStatus_def)
next
  case (Some info)
  let ?s1 = "s\<lparr>connections := AList.update c (info\<lparr>status := st\<rparr>) (connections s)\<rparr>"
  from Some have mem: "(c, info) \<in> set (connections s)" by (rule map_of_SomeD)
  with ok have ci: "connection info = c" by (auto simp: enabledOk_def keysOk_def)
  have k1: "keysOk ?s1" using ok ci
    by (auto simp: enabledOk_def keysOk_def dest!: set_update_cases)
  have t1: "tracked ?s1 = tracked s" using mem
    by (auto simp: tracked_def keys_update intro: rev_image_eqI)
  have ok1: "enabledOk ?s1" using ok k1 t1 by (simp add: enabledOk_def)
  have d1: "enabledOk (disableConnection ?s1)" using k1 by (rule disable_enabledOk)
  have e1: "enabledOk (emitStatus STATUS_BREAK ?s1)"
    using ok1 by (simp add: enabledOk_def emitStatus_def keysOk_def)
  have p1: "enabledOk (perform x ?s1)" for x
    using ok1 by (simp add: enabledOk_def keysOk_def)
  have r1: "enabledOk (snd (removeConnection c ?s1))"
    using ok1 by (rule removeConnection_enabledOk)
  show ?thesis using Some ok1 d1 e1 p1 r1
    by (auto simp: connectionOnStatus_def Let_def updateStatus_enabledOk split: prod.splits option.splits)
qed

lemma shrinksI:
  "config s' = config s \<Longrightarrow> nextConnection s' = nextConnection s \<Longrightarrow>
   breakpointStore s' = breakpointStore s \<Longrightarrow> awaitingDummy s' = awaitingDummy s \<Longrightarrow>
   dummyConnection s' = dummyConnection s \<Longrightarrow>
   map fst (connections s') = filter P (map fst (connections s)) \<Longrightarrow> shrinks s s'"
  unfolding shrinks_def by blast

lemma shrinks_same:
  "config s' = config s \<Longrightarrow> nextConnection s' = nextConnection s \<Longrightarrow>
   breakpointStore s' = breakpointStore s \<Longrightarrow> awaitingDummy s' = awaitingDummy s \<Longrightarrow>
   dummyConnection s' = dummyConnection s \<Longrightarrow>
   connections s' = connections s \<Longrightarrow> shrinks s s'"
  by (rule shrinksI [where P = "\<lambda>_. True"]) simp_all

lemma shrinks_refl: "shrinks s s"
  by (rule shrinks_same) simp_all

lemma shrinks_trans: "shrinks s s' \<Longrightarrow> shrinks s' s'' \<Longrightarrow> shrinks s s''"
  unfolding shrinks_def
proof (elim conjE exE)
  fix P Q
  assume "map fst (connections s') = filter P (map fst (connections s))"
    and "map fst (connections s'') = filter Q (map fst (connections s'))"
  then have "map fst (connections s'') = filter (\<lambda>k. P k \<and> Q k) (map fst (connections s))"
    by (simp add: conj_commute)
  moreover assume "config s' = config s" "config s'' = config s'"
    "nextConnection s' = nextConnection s" "nextConnection s'' = nextConnection s'"
    "breakpointStore s' = breakpointStore s" "breakpointStore s'' = breakpointStore s'"
    "awaitingDummy s' = awaitingDummy s" "awaitingDummy s'' = awaitingDummy s'"
    "dummyConnection s' = dummyConnection s" "dummyConnection s'' = dummyConnection s'"
  ultimately show "config s'' = config s \<and> nextConnection s'' = nextConnection s \<and>
     breakpointStore s'' = breakpointStore s \<and> awaitingDummy s'' = awaitingDummy s \<and>
     dummyConnection s'' = dummyConnection s \<and>
     (\<exists>P. map fst (connections s'') = filter P (map fst (connections s)))"
    by auto
qed

lemma shrinks_perform: "shrinks s (perform e s)"
  by (rule shrinks_same) simp_all

lemma shrinks_setStatus: "shrinks s (setStatus st s)"
  by (rule shrinks_same) simp_all

lemma shrinks_emitStatus: "shrinks s (emitStatus st s)"
  unfolding emitStatus_def by (rule shrinks_perform)

lemma shrinks_enableConnection: "shrinks s (enableConnection c s)"
  unfolding enableConnection_def by (rule shrinks_same) simp_all

lemma shrinks_disableConnection: "shrinks s (disableConnection s)"
  unfolding disableConnection_def by (rule shrinks_same) simp_all

lemma shrinks_checkForEnd: "shrinks s (checkForEnd s)"
  by (simp add: checkForEnd_def shrinks_setStatus shrinks_refl)

lemma shrinks_updateStatus: "shrinks s (updateStatus s)"
  by (simp add: updateStatus_def shrinks_enableConnection shrinks_refl split: option.splits)

lemma shrinks_removeConnection: "shrinks s (snd (removeConnection c s))"
proof (cases "map_of (connections s) c")
  case None
  then show ?thesis by (simp add: removeConnection_def shrinks_refl)
next
  case (Some info)
  let ?s3 = "(perform (ConnectionDispose c) (perform (DisposableDispose (onStatusDisposable info)) s))
              \<lparr>connections := AList.delete c (connections s)\<rparr>"
  let ?s4 = "if Some c = enabledConnection ?s3 then disableConnection ?s3 else ?s3"
  have eq: "snd (removeConnection c s) = checkForEnd ?s4"
    using Some by (simp add: removeConnection_def Let_def)
  have "shrinks s ?s3"
    by (rule shrinksI [where P = "\<lambda>k. c \<noteq> k"]) (simp_all add: delete_keys removeAll_filter_not_eq)
  then have "shrinks s ?s4"
    by (auto intro: shrinks_trans shrinks_disableConnection)
  then show ?thesis unfolding eq
    by (rule shrinks_trans) (rule shrinks_checkForEnd)
qed

lemma shrinks_connectionOnStatus: "shrinks s (snd (connectionOnStatus c st s))"
proof (cases "map_of (connections s) c")
  case None
  then show ?thesis by (simp add: connectionOnStatus_def shrinks_refl)
next
  case (Some info)
  let ?s1 = "s\<lparr>connections := AList.update c (info\<lparr>status := st\<rparr>) (connections s)\<rparr>"
  from Some have "c \<in> fst ` set (connections s)" by (auto dest: map_of_SomeD intro: rev_image_eqI)
  then have 1: "shrinks s ?s1"
    by (intro shrinksI [where P = "\<lambda>_. True"]) (simp_all add: update_keys)
  have "shrinks ?s1 (snd (connectionOnStatus c st s))"
    using Some shrinks_removeConnection [of ?s1 c]
    by (auto simp: connectionOnStatus_def Let_def split: prod.splits option.splits
          intro: shrinks_perform shrinks_updateStatus shrinks_emitStatus shrinks_trans
                 shrinks_disableConnection)
  with 1 show ?thesis by (rule shrinks_trans)
qed

lemma shrinks_removeConnections: "shrinks s (snd (removeConnections cs s))"
proof (induction cs arbitrary: s)
  case Nil
  show ?case by (simp add: shrinks_refl)
next
  case (Cons c cs)
  show ?case
  proof (cases "removeConnection c s")
    case (Pair err s')
    with shrinks_removeConnection [of s c] have 1: "shrinks s s'" by simp
    show ?thesis
    proof (cases err)
      case None
      with Pair 1 Cons.IH [of s'] show ?thesis by (auto intro: shrinks_trans)
    next
      case (Some e)
      with Pair 1 show ?thesis by simp
    qed
  qed
qed

lemma repeatsOnlyBreak_snoc:
  "repeatsOnlyBreak (xs @ [x]) \<longleftrightarrow>
     repeatsOnlyBreak xs \<and> (xs \<noteq> [] \<and> last xs = x \<longrightarrow> x = STATUS_BREAK)"
  by (induction xs rule: repeatsOnlyBreak.induct) auto

lemma emitOk_cong:
  "effects s' = effects s \<Longrightarrow> muxStatus s' = muxStatus s \<Longrightarrow> emitOk s' = emitOk s"
  by (simp add: emitOk_def)

lemma emitOk_silent:
  "emitted (effects s') = emitted (effects s) \<Longrightarrow> muxStatus s' = muxStatus s \<Longrightarrow>
   emitOk s \<Longrightarrow> emitOk s'"
  by (simp add: emitOk_def)

lemma emitOk_setStatus:
  "emitOk s \<Longrightarrow> st \<in> {STATUS_RUNNING, STATUS_BREAK, STATUS_END} \<Longrightarrow> emitOk (setStatus st s)"
  by (auto simp: emitOk_def Let_def repeatsOnlyBreak_snoc)

lemma emitOk_enableConnection: "emitOk s \<Longrightarrow> emitOk (enableConnection c s)"
  unfolding enableConnection_def
  by (rule emitOk_setStatus) (simp_all add: emitOk_def)

lemma emitOk_disableConnection: "emitOk s \<Longrightarrow> emitOk (disableConnection s)"
  unfolding disableConnection_def
  by (rule emitOk_setStatus) (simp_all add: emitOk_def)

lemma emitOk_checkForEnd: "emitOk s \<Longrightarrow> emitOk (checkForEnd s)"
  by (simp add: checkForEnd_def emitOk_setStatus)

lemma emitOk_updateStatus: "emitOk s \<Longrightarrow> emitOk (updateStatus s)"
  by (simp add: updateStatus_def emitOk_enableConnection split: option.splits)

lemma emitOk_removeConnection: "emitOk s \<Longrightarrow> emitOk (snd (removeConnection c s))"
proof (cases "map_of (connections s) c")
  case None
  assume "emitOk s"
  with None show ?thesis by (simp add: removeConnection_def)
next
  case (Some info)
  assume ok: "emitOk s"
  let ?s3 = "(perform (ConnectionDispose c) (perform (DisposableDispose (onStatusDisposable info)) s))
              \<lparr>connections := AList.delete c (connections s)\<rparr>"
  let ?s4 = "if Some c = enabledConnection ?s3 then disableConnection ?s3 else ?s3"
  have eq: "snd (removeConnection c s) = checkForEnd ?s4"
    using Some by (simp add: removeConnection_def Let_def)
  have "emitOk ?s3" using ok by (simp add: emitOk_def)
  then have "emitOk ?s4" by (simp add: emitOk_disableConnection)
  then show ?thesis unfolding eq by (rule emitOk_checkForEnd)
qed

lemma emitOk_emitBreak:
  "emitOk s \<Longrightarrow> muxStatus s = STATUS_BREAK \<Longrightarrow> emitOk (emitStatus STATUS_BREAK s)"
  by (auto simp: emitOk_def Let_def emitStatus_def repeatsOnlyBreak_snoc)

lemma emitOk_connectionOnStatus:
  assumes ok: "emitOk s" and en: "enabledOk s"
  shows "emitOk (snd (connectionOnStatus c st s))"
proof (cases "map_of (connections s) c")
  case None
  with ok show ?thesis by (simp add: connectionOnStatus_def)
next
  case (Some info)
  let ?s1 = "s\<lparr>connections := AList.update c (info\<lparr>status := st\<rparr>) (connections s)\<rparr>"
  have ok1: "emitOk ?s1" using ok by (simp add: emitOk_def)
  have p1: "emitOk (perform (ConnectionSendContinuationCommand c COMMAND_RUN) ?s1)"
    using ok by (simp add: emitOk_def)
  have d1: "emitOk (disableConnection ?s1)" using ok1 by (rule emitOk_disableConnection)
  have r1: "emitOk (snd (removeConnection c ?s1))" using ok1 by (rule emitOk_removeConnection)
  have e1: "Some c = enabledConnection ?s1 \<Longrightarrow> emitOk (emitStatus STATUS_BREAK ?s1)"
    using ok1 en by (intro emitOk_emitBreak) (simp_all add: enabledOk_def eq_commute [of "Some c"])
  show ?thesis using Some ok1 p1 d1 r1 e1
    by (auto simp: connectionOnStatus_def Let_def emitOk_updateStatus split: prod.splits option.splits)
qed

lemma emitOk_removeConnections: "emitOk s \<Longrightarrow> emitOk (snd (removeConnections cs s))"
proof (induction cs arbitrary: s)
  case Nil
  then show ?case by simp
next
  case (Cons c cs)
  from Cons.prems have "emitOk (snd (removeConnection c s))" by (rule emitOk_removeConnection)
  with Cons.IH [of "snd (removeConnection c s)"] show ?case
    by (cases "removeConnection c s") (auto split: option.splits)
qed

lemma enabledOk_removeConnections: "enabledOk s \<Longrightarrow> enabledOk (snd (removeConnections cs s))"
proof (induction cs arbitrary: s)
  case Nil
  then show ?case by simp
next
  case (Cons c cs)
  from Cons.prems have "enabledOk (snd (removeConnection c s))" by (rule removeConnection_enabledOk)
  with Cons.IH [of "snd (removeConnection c s)"] show ?case
    by (cases "removeConnection c s") (auto split: option.splits)
qed

lemma emitOk_disposeConnector: "emitOk s \<Longrightarrow> emitOk (disposeConnector s)"
  unfolding disposeConnector_def
  by (rule emitOk_checkForEnd) (simp add: emitOk_def split: option.splits)

lemma enabledOk_disposeConnector: "enabledOk s \<Longrightarrow> enabledOk (disposeConnector s)"
  unfolding disposeConnector_def
  by (rule checkForEnd_enabledOk) (simp add: enabledOk_def keysOk_def tracked_def split: option.splits)

lemma shrinks_disposeConnector: "shrinks s (disposeConnector s)"
  unfolding disposeConnector_def
  by (rule shrinks_trans [OF _ shrinks_checkForEnd]) (auto intro!: shrinks_same split: option.splits)

lemma dispose_eq:
  "snd (dispose s) =
     (case removeConnections (map fst (connections s)) s of
        (Some e, s') \<Rightarrow> s'
      | (None, s1) \<Rightarrow>
          disposeConnector (case dummyRequestProcess s1 of
                              Some p \<Rightarrow> perform (Kill p ''SIGKILL'') s1 | None \<Rightarrow> s1))"
  by (simp add: dispose_def Let_def split: prod.splits option.splits)

lemma emitOk_dispose: "emitOk s \<Longrightarrow> emitOk (snd (dispose s))"
  using emitOk_removeConnections [of s "map fst (connections s)"]
  by (auto simp: dispose_eq split: prod.splits option.splits
        intro!: emitOk_disposeConnector intro: emitOk_silent)

lemma enabledOk_dispose: "enabledOk s \<Longrightarrow> enabledOk (snd (dispose s))"
  using enabledOk_removeConnections [of s "map fst (connections s)"]
  by (auto simp: dispose_eq enabledOk_def [of "perform _ _"] keysOk_def [of "perform _ _"]
        split: prod.splits option.splits intro!: enabledOk_disposeConnector)
     (auto simp: enabledOk_def keysOk_def)

lemma shrinks_kill:
  "shrinks x (disposeConnector (case dummyRequestProcess x of
                                  Some p \<Rightarrow> perform (Kill p ''SIGKILL'') x | None \<Rightarrow> x))"
  by (cases "dummyRequestProcess x")
     (simp_all add: shrinks_disposeConnector shrinks_trans [OF shrinks_perform shrinks_disposeConnector])

lemma shrinks_dispose: "shrinks s (snd (dispose s))"
proof (cases "removeConnections (map fst (connections s)) s")
  case (Pair err s1)
  with shrinks_removeConnections [of s "map fst (connections s)"] have 1: "shrinks s s1" by simp
  show ?thesis
  proof (cases err)
    case None
    with Pair have "snd (dispose s) = disposeConnector (case dummyRequestProcess s1 of
                      Some p \<Rightarrow> perform (Kill p ''SIGKILL'') s1 | None \<Rightarrow> s1)"
      by (simp add: dispose_eq)
    with 1 shrinks_kill [of s1] show ?thesis by (auto intro: shrinks_trans)
  next
    case (Some e)
    with Pair 1 show ?thesis by (simp add: dispose_eq)
  qed
qed

lemma tracked_keys: "tracked s = set (map fst (connections s))"
  by (simp add: tracked_def)

lemma shrinks_tracked: "shrinks s s' \<Longrightarrow> tracked s' \<subseteq> tracked s"
  by (auto simp: shrinks_def tracked_keys simp del: set_map)

lemma shrinks_ordered: "shrinks s s' \<Longrightarrow> ordered s \<Longrightarrow> ordered s'"
  using shrinks_tracked [of s s']
  by (auto simp: ordered_def shrinks_def sorted_wrt_filter)

lemma shrinks_separate: "shrinks s s' \<Longrightarrow> separate s \<Longrightarrow> separate s'"
  using shrinks_tracked [of s s']
  by (auto simp: separate_def shrinks_def)

lemma wf_listen: "wf (listen (newConnectionMultiplexer cfg))"
  by (simp add: wf_def listen_def newConnectionMultiplexer_def Let_def enabledOk_def keysOk_def
        emitOk_def ordered_def separate_def tracked_def perform_def)

lemma enabledOk_onAttach: "enabledOk s \<Longrightarrow> enabledOk (onAttach params s)"
  by (auto simp: onAttach_def handleDummyConnection_def Let_def enabledOk_def keysOk_def
        tracked_def keys_update dest!: set_update_cases)

lemma emitOk_onAttach: "emitOk s \<Longrightarrow> emitOk (onAttach params s)"
  by (auto simp: onAttach_def handleDummyConnection_def Let_def emitOk_def)

lemma ordered_onAttach: "ordered s \<Longrightarrow> ordered (onAttach params s)"
  by (auto simp: onAttach_def handleDummyConnection_def Let_def ordered_def tracked_keys
        update_keys sorted_wrt_append less_Suc_eq simp del: set_map)

lemma separate_onAttach: "separate s \<Longrightarrow> separate (onAttach params s)"
  by (auto simp: onAttach_def handleDummyConnection_def Let_def separate_def tracked_def
        keys_update addConnection_def less_Suc_eq)

lemma wf_onAttach: "wf s \<Longrightarrow> wf (onAttach params s)"
  by (simp add: wf_def enabledOk_onAttach emitOk_onAttach ordered_onAttach separate_onAttach)


lemma wf_connectionOnStatus: "wf s \<Longrightarrow> wf (snd (connectionOnStatus c st s))"
  using shrinks_connectionOnStatus [of s c st]
  by (simp add: wf_def connectionOnStatus_enabledOk emitOk_connectionOnStatus
        shrinks_ordered shrinks_separate)

lemma wf_dispose: "wf s \<Longrightarrow> wf (snd (dispose s))"
  using shrinks_dispose [of s]
  by (simp add: wf_def enabledOk_dispose emitOk_dispose shrinks_ordered shrinks_separate)

lemma wf_disposeConnector: "wf s \<Longrightarrow> wf (disposeConnector s)"
  using shrinks_disposeConnector [of s]
  by (simp add: wf_def enabledOk_disposeConnector emitOk_disposeConnector
        shrinks_ordered shrinks_separate)

lemma wf_forget_awaitingStatus: "wf s \<Longrightarrow> wf (s\<lparr>awaitingStatus := xs\<rparr>)"
  by (simp add: wf_def enabledOk_def keysOk_def emitOk_def ordered_def separate_def tracked_def)

lemma wf_dummyRunSettled:
  assumes "wf s" and "d \<in> set (awaitingDummy s)"
  shows "wf (s\<lparr>awaitingDummy := removeAll d (awaitingDummy s)\<rparr>)"
    and "wf (handleDummyConnection_resume d (s\<lparr>awaitingDummy := removeAll d (awaitingDummy s)\<rparr>))"
  using assms
  by (auto simp: wf_def enabledOk_def keysOk_def emitOk_def ordered_def separate_def tracked_def
        handleDummyConnection_resume_def)

lemma wf_handleAttachError: "wf s \<Longrightarrow> wf (handleAttachError err s)"
  by (simp add: wf_def enabledOk_def keysOk_def emitOk_def ordered_def separate_def tracked_def
        handleAttachError_def)

lemma wf_step: "wf s \<Longrightarrow> wf (step e s)"
proof (cases e)
  case (StatusSettled c r)
  assume "wf s"
  then have "wf (s\<lparr>awaitingStatus := removeAll c (awaitingStatus s)\<rparr>)"
    by (rule wf_forget_awaitingStatus)
  then have "wf (snd (onAttach_resume c r (s\<lparr>awaitingStatus := removeAll c (awaitingStatus s)\<rparr>)))"
    by (simp add: onAttach_resume_def wf_connectionOnStatus split: settled.splits rejection.splits)
  with \<open>wf s\<close> StatusSettled show ?thesis by simp
qed (simp_all add: wf_onAttach wf_connectionOnStatus wf_dispose wf_disposeConnector
       wf_dummyRunSettled wf_handleAttachError Let_def)

lemma wf_run: "wf s \<Longrightarrow> wf (run evs s)"
  by (induction evs arbitrary: s) (simp_all add: wf_step)

lemma wf_session: "wf (session cfg evs)"
  unfolding session_def by (rule wf_run) (rule wf_listen)

lemma run_append: "run (xs @ ys) s = run ys (run xs s)"
  by (induction xs arbitrary: s) simp_all

lemma repeatsOnlyBreak_nth:
  "repeatsOnlyBreak es \<Longrightarrow> Suc i < length es \<Longrightarrow> es ! i = es ! Suc i \<Longrightarrow> es ! i = STATUS_BREAK"
proof (induction es arbitrary: i rule: repeatsOnlyBreak.induct)
  case (1 x y zs)
  then show ?case by (cases i) auto
qed simp_all




















lemma tracked_map_of: "c \<in> tracked s \<Longrightarrow> \<exists>info. map_of (connections s) c = Some info"
  by (cases "map_of (connections s) c") (auto simp: tracked_def map_of_eq_None_iff)

lemma connectionOnStatus_break_enabled:
  assumes m: "map_of (connections s) c = Some info" and e: "enabledConnection s = Some c"
  shows "connectionOnStatus c STATUS_BREAK s =
           (None, emitStatus STATUS_BREAK
                    (s\<lparr>connections := AList.update c (info\<lparr>status := STATUS_BREAK\<rparr>) (connections s)\<rparr>))"
  using m e by (simp add: connectionOnStatus_def Let_def)

lemma connectionOnStatus_break_other:
  assumes m: "map_of (connections s) c = Some info" and e: "enabledConnection s \<noteq> Some c"
  shows "connectionOnStatus c STATUS_BREAK s =
           (None, updateStatus
                    (s\<lparr>connections := AList.update c (info\<lparr>status := STATUS_BREAK\<rparr>) (connections s)\<rparr>))"
  using m e by (auto simp: connectionOnStatus_def Let_def)

lemma find_exists: "x \<in> set xs \<Longrightarrow> P x \<Longrightarrow> \<exists>y. find P xs = Some y"
  by (cases "find P xs") (auto simp: find_None_iff)

lemma updateStatus_selects:
  assumes k: "keysOk s" and st: "muxStatus s \<noteq> STATUS_BREAK" "muxStatus s \<noteq> STATUS_END"
    and mem: "(c, info) \<in> set (connections s)" and b: "status info = STATUS_BREAK"
  shows "\<exists>i < length (connections s).
           updateStatus s = enableConnection (fst (connections s ! i)) s \<and>
           status (snd (connections s ! i)) = STATUS_BREAK \<and>
           (\<forall>j < i. status (snd (connections s ! j)) \<noteq> STATUS_BREAK)"
proof -
  let ?P = "\<lambda>(c, connectionInfo). status connectionInfo = STATUS_BREAK"
  from mem b obtain y where f: "find ?P (connections s) = Some y"
    using find_exists [of "(c, info)" "connections s" ?P] by auto
  then obtain i where i: "i < length (connections s)" "?P (connections s ! i)"
      "y = connections s ! i" "\<forall>j < i. \<not> ?P (connections s ! j)"
    by (auto simp: find_Some_iff)
  obtain k inf where y: "y = (k, inf)" by (cases y)
  with i have "(k, inf) \<in> set (connections s)" by (metis nth_mem)
  with k have "connection inf = k" by (auto simp: keysOk_def)
  with f y st have "updateStatus s = enableConnection k s" by (simp add: updateStatus_def)
  moreover from i y have "fst (connections s ! i) = k" by (metis fst_conv)
  ultimately show ?thesis using i
    by (intro exI [of _ i]) (simp add: case_prod_beta)
qed

lemma checkForEnd_fields [simp]:
  "config (checkForEnd s) = config s"
  "enabledConnection (checkForEnd s) = enabledConnection s"
  "dummyConnection (checkForEnd s) = dummyConnection s"
  "connections (checkForEnd s) = connections s"
  "connector (checkForEnd s) = connector s"
  "dummyRequestProcess (checkForEnd s) = dummyRequestProcess s"
  "tracked (checkForEnd s) = tracked s"
  by (simp_all add: checkForEnd_def)

lemma disabled_checkForEnd: "disabled es s \<Longrightarrow> disabled es (checkForEnd s)"
  by (auto simp: disabled_def checkForEnd_def)

lemma removeConnection_enabled:
  assumes m: "map_of (connections s) c = Some info" and e: "enabledConnection s = Some c"
    and b: "muxStatus s = STATUS_BREAK"
  shows "\<exists>s4. removeConnection c s = (None, checkForEnd s4) \<and>
           enabledConnection s4 = None \<and> muxStatus s4 = STATUS_RUNNING \<and>
           emitted (effects s4) = emitted (effects s) @ [STATUS_RUNNING] \<and>
           connections s4 = AList.delete c (connections s) \<and>
           connector s4 = connector s \<and> config s4 = config s \<and>
           dummyRequestProcess s4 = dummyRequestProcess s"
  using m e b
  by (intro exI [of _ "disableConnection
         ((perform (ConnectionDispose c) (perform (DisposableDispose (onStatusDisposable info)) s))
            \<lparr>connections := AList.delete c (connections s)\<rparr>)"])
     (simp add: removeConnection_def Let_def disableConnection_def)

lemma removeConnection_other:
  assumes m: "map_of (connections s) c = Some info" and e: "enabledConnection s \<noteq> Some c"
  shows "removeConnection c s =
           (None, checkForEnd
              ((perform (ConnectionDispose c) (perform (DisposableDispose (onStatusDisposable info)) s))
                 \<lparr>connections := AList.delete c (connections s)\<rparr>))"
  using m e by (auto simp: removeConnection_def Let_def)

lemma removeConnections_disabled:
  "disabled es s \<Longrightarrow> distinct cs \<Longrightarrow> set cs \<subseteq> tracked s \<Longrightarrow>
   \<exists>s'. removeConnections cs s = (None, s') \<and> disabled es s' \<and>
        tracked s' = tracked s - set cs \<and> connector s' = connector s \<and>
        dummyRequestProcess s' = dummyRequestProcess s"
proof (induction cs arbitrary: s)
  case Nil
  then show ?case by simp
next
  case (Cons c cs)
  from Cons.prems obtain info where m: "map_of (connections s) c = Some info"
    by (auto dest: tracked_map_of)
  from Cons.prems have ne: "enabledConnection s \<noteq> Some c" by (simp add: disabled_def)
  let ?s3 = "(perform (ConnectionDispose c) (perform (DisposableDispose (onStatusDisposable info)) s))
                 \<lparr>connections := AList.delete c (connections s)\<rparr>"
  have r: "removeConnection c s = (None, checkForEnd ?s3)"
    by (rule removeConnection_other [OF m ne])
  have "disabled es ?s3" using Cons.prems(1) by (simp add: disabled_def)
  then have d: "disabled es (checkForEnd ?s3)" by (rule disabled_checkForEnd)
  have tr: "tracked (checkForEnd ?s3) = tracked s - {c}"
    by (simp add: tracked_def keys_delete)
  have fr: "connector (checkForEnd ?s3) = connector s"
      "dummyRequestProcess (checkForEnd ?s3) = dummyRequestProcess s"
    by simp_all
  from Cons.prems tr have sub: "set cs \<subseteq> tracked (checkForEnd ?s3)" by auto
  from Cons.prems have dist: "distinct cs" by simp
  from Cons.IH [OF d dist sub] obtain s' where
    "removeConnections cs (checkForEnd ?s3) = (None, s')" "disabled es s'"
    "tracked s' = tracked (checkForEnd ?s3) - set cs" "connector s' = connector (checkForEnd ?s3)"
    "dummyRequestProcess s' = dummyRequestProcess (checkForEnd ?s3)"
    by blast
  with r tr fr show ?case by (intro exI [of _ s']) auto
qed

lemma removeConnections_enabled:
  "enabledConnection s = Some e \<Longrightarrow> muxStatus s = STATUS_BREAK \<Longrightarrow> e \<in> set cs \<Longrightarrow>
   distinct cs \<Longrightarrow> set cs \<subseteq> tracked s \<Longrightarrow>
   \<exists>s'. removeConnections cs s = (None, s') \<and> disabled (emitted (effects s)) s' \<and>
        tracked s' = tracked s - set cs \<and> connector s' = connector s \<and>
        dummyRequestProcess s' = dummyRequestProcess s"
proof (induction cs arbitrary: s)
  case Nil
  then show ?case by simp
next
  case (Cons c cs)
  from Cons.prems obtain info where m: "map_of (connections s) c = Some info"
    by (auto dest: tracked_map_of)
  from Cons.prems have dist: "distinct cs" and notin: "c \<notin> set cs" by simp_all
  show ?case
  proof (cases "c = e")
    case True
    with Cons.prems have en: "enabledConnection s = Some c" by simp
    from removeConnection_enabled [OF m en Cons.prems(2)] obtain s4 where
      r: "removeConnection c s = (None, checkForEnd s4)" and
      s4: "enabledConnection s4 = None" "muxStatus s4 = STATUS_RUNNING"
        "emitted (effects s4) = emitted (effects s) @ [STATUS_RUNNING]"
        "connections s4 = AList.delete c (connections s)" "connector s4 = connector s"
        "dummyRequestProcess s4 = dummyRequestProcess s"
      by blast
    have f4: "dummyRequestProcess (checkForEnd s4) = dummyRequestProcess s"
      using s4 by simp
    have "disabled (emitted (effects s)) s4" using s4 by (simp add: disabled_def)
    then have d: "disabled (emitted (effects s)) (checkForEnd s4)" by (rule disabled_checkForEnd)
    have tr: "tracked (checkForEnd s4) = tracked s - {c}"
      using s4 by (simp add: tracked_def keys_delete del: checkForEnd_fields(7))
    have fr: "connector (checkForEnd s4) = connector s"
      using s4 by simp
    from Cons.prems tr notin have sub: "set cs \<subseteq> tracked (checkForEnd s4)" by auto
    from removeConnections_disabled [OF d dist sub] obtain s' where
      "removeConnections cs (checkForEnd s4) = (None, s')" "disabled (emitted (effects s)) s'"
      "tracked s' = tracked (checkForEnd s4) - set cs" "connector s' = connector (checkForEnd s4)"
      "dummyRequestProcess s' = dummyRequestProcess (checkForEnd s4)"
      by blast
    with r tr fr f4 show ?thesis by (intro exI [of _ s']) auto
  next
    case False
    with Cons.prems have ne: "enabledConnection s \<noteq> Some c" and ein: "e \<in> set cs" by auto
    let ?s3 = "(perform (ConnectionDispose c) (perform (DisposableDispose (onStatusDisposable info)) s))
                 \<lparr>connections := AList.delete c (connections s)\<rparr>"
    have r: "removeConnection c s = (None, checkForEnd ?s3)"
      by (rule removeConnection_other [OF m ne])
    from Cons.prems ein have "e \<in> tracked s" by auto
    with False have "e \<in> fst ` set (AList.delete c (connections s))"
      by (simp add: keys_delete tracked_def)
    then have nonempty: "AList.delete c (connections s) \<noteq> []" by auto
    then have ce: "checkForEnd ?s3 = ?s3" by (simp add: checkForEnd_def)
    have tr: "tracked ?s3 = tracked s - {c}" by (simp add: tracked_def keys_delete)
    from Cons.prems tr notin have sub: "set cs \<subseteq> tracked ?s3" by auto
    have "\<exists>s'. removeConnections cs ?s3 = (None, s') \<and> disabled (emitted (effects ?s3)) s' \<and>
        tracked s' = tracked ?s3 - set cs \<and> connector s' = connector ?s3 \<and>
        dummyRequestProcess s' = dummyRequestProcess ?s3"
      using Cons.prems(1,2) ein dist sub by (intro Cons.IH) simp_all
    then obtain s' where "removeConnections cs ?s3 = (None, s')"
      "disabled (emitted (effects ?s3)) s'" "tracked s' = tracked ?s3 - set cs"
      "connector s' = connector ?s3" "dummyRequestProcess s' = dummyRequestProcess ?s3"
      by blast
    with r ce tr show ?thesis by (intro exI [of _ s']) auto
  qed
qed

lemma dispose_enabled:
  assumes en: "enabledConnection s = Some e" and ok: "enabledOk s" and ord: "ordered s"
  shows "fst (dispose s) = None \<and>
         emitted (effects (snd (dispose s))) = emitted (effects s) @ [STATUS_RUNNING, STATUS_END] \<and>
         enabledConnection (snd (dispose s)) = None \<and> muxStatus (snd (dispose s)) = STATUS_END"
proof -
  from ok en have b: "muxStatus s = STATUS_BREAK" and tr: "e \<in> tracked s"
    by (simp_all add: enabledOk_def)
  from ord have "distinct (map fst (connections s))"
    by (simp add: ordered_def strict_sorted_iff)
  from removeConnections_enabled [OF en b _ this] tr
  obtain s1 where r: "removeConnections (map fst (connections s)) s = (None, s1)"
    and d: "disabled (emitted (effects s)) s1" and t1: "tracked s1 = {}"
    by (auto simp: tracked_def)
  from t1 have c1: "connections s1 = []" by (simp add: tracked_def)
  let ?s2 = "case dummyRequestProcess s1 of Some p \<Rightarrow> perform (Kill p ''SIGKILL'') s1 | None \<Rightarrow> s1"
  have d2: "disabled (emitted (effects s)) ?s2" and c2: "connections ?s2 = []"
    using d c1 by (simp_all add: disabled_def split: option.splits)
  have eq: "dispose s = (None, disposeConnector ?s2)"
    using r by (simp add: dispose_def Let_def)
  have "disabled (emitted (effects s)) (case connector ?s2 of
           Some k \<Rightarrow> perform ConnectorDispose (?s2\<lparr>connector := None\<rparr>) | None \<Rightarrow> ?s2) \<and>
        connections (case connector ?s2 of
           Some k \<Rightarrow> perform ConnectorDispose (?s2\<lparr>connector := None\<rparr>) | None \<Rightarrow> ?s2) = [] \<and>
        connector (case connector ?s2 of
           Some k \<Rightarrow> perform ConnectorDispose (?s2\<lparr>connector := None\<rparr>) | None \<Rightarrow> ?s2) = None"
    using d2 c2 by (cases "connector ?s2") (simp_all add: disabled_def)
  then show ?thesis unfolding eq disposeConnector_def
    by (auto simp: checkForEnd_def disabled_def)
qed

lemma updateStatus_emitted:
  "emitted (effects (updateStatus s)) = emitted (effects s) \<or>
   muxStatus s \<noteq> STATUS_END \<and> muxStatus (updateStatus s) = STATUS_BREAK \<and>
   emitted (effects (updateStatus s)) = emitted (effects s) @ [STATUS_BREAK]"
  by (auto simp: updateStatus_def enableConnection_def split: option.splits)

lemma updateStatus_connections [simp]: "connections (updateStatus s) = connections s"
  by (simp add: updateStatus_def enableConnection_def split: option.splits)

lemma checkForEnd_emitted:
  "emitted (effects (checkForEnd s)) =
     emitted (effects s) @
       (if muxStatus (checkForEnd s) = STATUS_END \<and> muxStatus s \<noteq> STATUS_END
        then [STATUS_END] else [])"
  by (auto simp: checkForEnd_def)

lemma checkForEnd_status:
  "muxStatus (checkForEnd s) = STATUS_END \<or> muxStatus (checkForEnd s) = muxStatus s"
  by (auto simp: checkForEnd_def)

lemma terminal_enabled:
  assumes m: "map_of (connections s) c = Some info" and e: "enabledConnection s = Some c"
    and b: "muxStatus s = STATUS_BREAK"
    and st: "st = STATUS_STOPPED \<or> st = STATUS_ERROR \<or> st = STATUS_END"
  shows "\<exists>rest. fst (connectionOnStatus c st s) = None \<and>
           emitted (effects (snd (connectionOnStatus c st s))) =
             emitted (effects s) @ STATUS_RUNNING # rest \<and>
           (rest = [] \<or> rest = [STATUS_END] \<or> rest = [STATUS_BREAK]) \<and>
           (muxStatus (snd (connectionOnStatus c st s)) = STATUS_END \<longrightarrow> rest = [STATUS_END]) \<and>
           c \<notin> tracked (snd (connectionOnStatus c st s))"
proof -
  let ?s1 = "s\<lparr>connections := AList.update c (info\<lparr>status := st\<rparr>) (connections s)\<rparr>"
  have m1: "map_of (connections ?s1) c = Some (info\<lparr>status := st\<rparr>)"
    by (simp add: update_conv')
  have e1: "enabledConnection ?s1 = Some c" and b1: "muxStatus ?s1 = STATUS_BREAK"
    using e b by simp_all
  from removeConnection_enabled [OF m1 e1 b1] obtain s4 where
    r: "removeConnection c ?s1 = (None, checkForEnd s4)" and
    s4: "enabledConnection s4 = None" "muxStatus s4 = STATUS_RUNNING"
      "emitted (effects s4) = emitted (effects s) @ [STATUS_RUNNING]"
      "connections s4 = AList.delete c (connections ?s1)"
    by auto
  have eq: "connectionOnStatus c st s = (None, updateStatus (checkForEnd s4))"
    using m st r by (auto simp: connectionOnStatus_def Let_def)
  have tr: "c \<notin> tracked (updateStatus (checkForEnd s4))"
    using s4 by (simp add: tracked_def keys_delete)
  show ?thesis
  proof (cases "muxStatus (checkForEnd s4) = STATUS_END")
    case True
    then have "updateStatus (checkForEnd s4) = checkForEnd s4" by (simp add: updateStatus_def)
    with True s4 tr show ?thesis unfolding eq
      by (intro exI [of _ "[STATUS_END]"]) (simp add: checkForEnd_emitted)
  next
    case False
    with checkForEnd_status [of s4] s4 have run: "muxStatus (checkForEnd s4) = STATUS_RUNNING"
      by auto
    with s4 have em: "emitted (effects (checkForEnd s4)) = emitted (effects s) @ [STATUS_RUNNING]"
      by (simp add: checkForEnd_emitted)
    from updateStatus_emitted [of "checkForEnd s4"] show ?thesis
    proof
      assume u: "emitted (effects (updateStatus (checkForEnd s4))) = emitted (effects (checkForEnd s4))"
      have "muxStatus (updateStatus (checkForEnd s4)) \<noteq> STATUS_END"
        using run by (simp add: updateStatus_def enableConnection_def split: option.splits)
      with u em tr show ?thesis unfolding eq by (intro exI [of _ "[]"]) simp
    next
      assume "muxStatus (checkForEnd s4) \<noteq> STATUS_END \<and>
        muxStatus (updateStatus (checkForEnd s4)) = STATUS_BREAK \<and>
        emitted (effects (updateStatus (checkForEnd s4))) =
          emitted (effects (checkForEnd s4)) @ [STATUS_BREAK]"
      with em tr show ?thesis unfolding eq by (intro exI [of _ "[STATUS_BREAK]"]) simp
    qed
  qed
qed

lemma effects_setStatus: "set (effects s) \<subseteq> set (effects (setStatus st s))"
  by auto

lemma effects_checkForEnd: "set (effects s) \<subseteq> set (effects (checkForEnd s))"
  by (auto simp: checkForEnd_def)

lemma effects_updateStatus: "set (effects s) \<subseteq> set (effects (updateStatus s))"
  by (auto simp: updateStatus_def enableConnection_def split: option.splits)

lemma onAttach_resume_rejected_tracked:
  assumes m: "map_of (connections s) c = Some info"
  shows "\<exists>s'. onAttach_resume c (Rejected (Exception e)) s = (None, s') \<and> c \<notin> tracked s' \<and>
              DisposableDispose (onStatusDisposable info) \<in> set (effects s') \<and>
              ConnectionDispose c \<in> set (effects s')"
proof -
  let ?s1 = "s\<lparr>connections := AList.update c (info\<lparr>status := STATUS_ERROR\<rparr>) (connections s)\<rparr>"
  let ?s3 = "(perform (ConnectionDispose c)
                (perform (DisposableDispose (onStatusDisposable info)) ?s1))
              \<lparr>connections := AList.delete c (connections ?s1)\<rparr>"
  let ?s4 = "if Some c = enabledConnection ?s1 then disableConnection ?s3 else ?s3"
  have m1: "map_of (connections ?s1) c = Some (info\<lparr>status := STATUS_ERROR\<rparr>)"
    by (simp add: update_conv')
  have r: "removeConnection c ?s1 = (None, checkForEnd ?s4)"
    using m1 by (simp add: removeConnection_def Let_def)
  have eq: "onAttach_resume c (Rejected (Exception e)) s = (None, updateStatus (checkForEnd ?s4))"
    using m r by (simp add: onAttach_resume_def connectionOnStatus_def Let_def)
  have "connections ?s4 = AList.delete c (connections ?s1)"
    by (simp add: disableConnection_def)
  then have tr: "c \<notin> tracked (updateStatus (checkForEnd ?s4))"
    by (simp add: tracked_def keys_delete)
  have "{DisposableDispose (onStatusDisposable info), ConnectionDispose c} \<subseteq> set (effects ?s4)"
    by (simp add: disableConnection_def)
  also have "\<dots> \<subseteq> set (effects (checkForEnd ?s4))" by (rule effects_checkForEnd)
  also have "\<dots> \<subseteq> set (effects (updateStatus (checkForEnd ?s4)))" by (rule effects_updateStatus)
  finally show ?thesis using tr unfolding eq by blast
qed

lemma noBreak_updateStatus: "noBreak (updateStatus s)"
proof (cases "muxStatus s = STATUS_END \<or> muxStatus s = STATUS_BREAK")
  case True
  then show ?thesis by (auto simp: noBreak_def updateStatus_def)
next
  case False
  show ?thesis
  proof (cases "find (\<lambda>(c, connectionInfo). status connectionInfo = STATUS_BREAK) (connections s)")
    case None
    then have "\<forall>k i. (k, i) \<in> set (connections s) \<longrightarrow> status i \<noteq> STATUS_BREAK"
      by (auto simp: find_None_iff)
    with None False show ?thesis by (simp add: noBreak_def updateStatus_def)
  next
    case (Some p)
    with False show ?thesis
      by (cases p) (simp add: noBreak_def updateStatus_def enableConnection_def)
  qed
qed

lemma removeConnection_clears:
  assumes "c \<in> tracked s"
  shows "fst (removeConnection c s) = None \<and>
         tracked (snd (removeConnection c s)) = tracked s - {c}"
proof -
  from assms obtain info where m: "map_of (connections s) c = Some info"
    by (auto dest: tracked_map_of)
  then show ?thesis
    by (simp add: removeConnection_def Let_def tracked_def keys_delete disableConnection_def)
qed

lemma removeConnections_clears:
  "distinct cs \<Longrightarrow> set cs \<subseteq> tracked s \<Longrightarrow>
   fst (removeConnections cs s) = None \<and>
   tracked (snd (removeConnections cs s)) = tracked s - set cs"
proof (induction cs arbitrary: s)
  case Nil
  then show ?case by simp
next
  case (Cons c cs)
  from Cons.prems have "c \<in> tracked s" by simp
  from removeConnection_clears [OF this] obtain s' where
    r: "removeConnection c s = (None, s')" and t: "tracked s' = tracked s - {c}"
    by (cases "removeConnection c s") auto
  from Cons.prems t have "distinct cs" "set cs \<subseteq> tracked s'" by auto
  from Cons.IH [OF this] r t show ?case by auto
qed

lemma disposeConnector_connections [simp]:
  "connections (disposeConnector s) = connections s"
  by (simp add: disposeConnector_def split: option.splits)

lemma dispose_clears:
  assumes "ordered s" shows "connections (snd (dispose s)) = []"
proof -
  from assms have "distinct (map fst (connections s))"
    by (simp add: ordered_def strict_sorted_iff)
  from removeConnections_clears [OF this, of s]
  obtain s1 where r: "removeConnections (map fst (connections s)) s = (None, s1)"
    and t: "tracked s1 = {}"
    by (cases "removeConnections (map fst (connections s)) s") (auto simp: tracked_def)
  from t have "connections s1 = []" by (simp add: tracked_def)
  with r show ?thesis by (simp add: dispose_eq split: option.splits)
qed

lemma noBreak_connectionOnStatus:
  assumes en: "enabledOk s" and nb: "noBreak s"
  shows "noBreak (snd (connectionOnStatus c st s))"
proof (cases "map_of (connections s) c")
  case None
  with nb show ?thesis by (simp add: connectionOnStatus_def)
next
  case (Some info)
  let ?s1 = "s\<lparr>connections := AList.update c (info\<lparr>status := st\<rparr>) (connections s)\<rparr>"
  have m1: "map_of (connections ?s1) c = Some (info\<lparr>status := st\<rparr>)"
    by (simp add: update_conv')
  then have "c \<in> tracked ?s1" by (auto simp: tracked_def dest: map_of_SomeD intro: rev_image_eqI)
  from removeConnection_clears [OF this] obtain s2 where
    r: "removeConnection c ?s1 = (None, s2)"
    by (cases "removeConnection c ?s1") auto
  have quiet: "noBreak (perform x ?s1)" if "st \<noteq> STATUS_BREAK" for x
    using nb that by (auto simp: noBreak_def dest!: set_update_cases)
  have again: "noBreak (emitStatus STATUS_BREAK ?s1)" if "Some c = enabledConnection s"
    using en that by (simp add: noBreak_def emitStatus_def enabledOk_def eq_commute [of "Some c"])
  show ?thesis using Some r quiet again
    by (auto simp: connectionOnStatus_def Let_def noBreak_updateStatus)
qed

lemma noBreak_step:
  assumes wf: "wf s" and nb: "noBreak s" shows "noBreak (step e s)"
proof (cases e)
  case (Attach p)
  with nb show ?thesis
    by (auto simp: noBreak_def onAttach_def handleDummyConnection_def Let_def
          dest!: set_update_cases)
next
  case (StatusSettled c r)
  let ?s0 = "s\<lparr>awaitingStatus := removeAll c (awaitingStatus s)\<rparr>"
  from wf have "enabledOk ?s0" by (simp add: wf_def enabledOk_def keysOk_def tracked_def)
  moreover from nb have n0: "noBreak ?s0" by (simp add: noBreak_def)
  ultimately have "noBreak (snd (connectionOnStatus c st ?s0))" for st
    by (rule noBreak_connectionOnStatus)
  with n0 have "noBreak (snd (onAttach_resume c r ?s0))"
    by (simp add: onAttach_resume_def split: settled.splits rejection.splits)
  with nb StatusSettled show ?thesis by simp
next
  case (DummyRunSettled d ok)
  with nb show ?thesis
    by (simp add: noBreak_def handleDummyConnection_resume_def Let_def)
next
  case (ConnectionStatus c st)
  from wf have "enabledOk s" by (simp add: wf_def)
  from noBreak_connectionOnStatus [OF this nb] nb ConnectionStatus show ?thesis by simp
next
  case ConnectorClose
  with nb show ?thesis
    by (auto simp: noBreak_def disposeConnector_def checkForEnd_def split: option.splits)
next
  case (ConnectorError err)
  with nb show ?thesis by (simp add: noBreak_def handleAttachError_def)
next
  case Dispose
  from wf have "ordered s" by (simp add: wf_def)
  from dispose_clears [OF this] Dispose show ?thesis by (simp add: noBreak_def)
qed

lemma noBreak_run: "wf s \<Longrightarrow> noBreak s \<Longrightarrow> noBreak (run evs s)"
  by (induction evs arbitrary: s) (simp_all add: noBreak_step wf_step)

lemma noBreak_session: "noBreak (session cfg evs)"
  unfolding session_def
  by (rule noBreak_run [OF wf_listen])
     (simp add: noBreak_def listen_def newConnectionMultiplexer_def Let_def)

lemma updateStatus_first:
  assumes k: "keysOk s" and st: "muxStatus s \<noteq> STATUS_BREAK" "muxStatus s \<noteq> STATUS_END"
    and i: "i < length (connections s)" "status (snd (connections s ! i)) = STATUS_BREAK"
      "\<forall>j < i. status (snd (connections s ! j)) \<noteq> STATUS_BREAK"
  shows "updateStatus s = enableConnection (fst (connections s ! i)) s"
proof -
  let ?P = "\<lambda>(c, connectionInfo). status connectionInfo = STATUS_BREAK"
  obtain key inf where y: "connections s ! i = (key, inf)" by (cases "connections s ! i")
  from i have "find ?P (connections s) = Some (connections s ! i)"
    unfolding find_Some_iff by (intro exI [of _ i]) (simp add: case_prod_beta)
  with y have f: "find ?P (connections s) = Some (key, inf)" by simp
  from i(1) y have "(key, inf) \<in> set (connections s)" by (metis nth_mem)
  with k have "connection inf = key" by (auto simp: keysOk_def)
  with f st y show ?thesis by (simp add: updateStatus_def)
qed

lemma resume_or_removal_selects:
  assumes ok: "enabledOk s" and en: "enabledConnection s = Some e"
    and st: "st = STATUS_RUNNING \<or> st = STATUS_STOPPED \<or> st = STATUS_ERROR \<or> st = STATUS_END"
    and i: "i < length (connections (snd (connectionOnStatus e st s)))"
      "status (snd (connections (snd (connectionOnStatus e st s)) ! i)) = STATUS_BREAK"
      "\<forall>j < i. status (snd (connections (snd (connectionOnStatus e st s)) ! j)) \<noteq> STATUS_BREAK"
  shows "enabledConnection (snd (connectionOnStatus e st s)) =
           Some (fst (connections (snd (connectionOnStatus e st s)) ! i)) \<and>
         muxStatus (snd (connectionOnStatus e st s)) = STATUS_BREAK"
proof -
  from ok en have tr: "e \<in> tracked s" and br: "muxStatus s = STATUS_BREAK"
    by (simp_all add: enabledOk_def)
  from tr obtain info where m: "map_of (connections s) e = Some info"
    by (auto dest: tracked_map_of)
  then have mem: "(e, info) \<in> set (connections s)" by (rule map_of_SomeD)
  with ok have ci: "connection info = e" by (auto simp: enabledOk_def keysOk_def)
  let ?s1 = "s\<lparr>connections := AList.update e (info\<lparr>status := st\<rparr>) (connections s)\<rparr>"
  have k1: "keysOk ?s1" using ok ci
    by (auto simp: enabledOk_def keysOk_def dest!: set_update_cases)
  have "\<exists>x. snd (connectionOnStatus e st s) = updateStatus x \<and> keysOk x \<and>
          muxStatus x = STATUS_RUNNING \<and> enabledConnection x = None"
  proof (cases "st = STATUS_RUNNING")
    case True
    have "snd (connectionOnStatus e st s) = updateStatus (disableConnection ?s1)"
      using m en True by (simp add: connectionOnStatus_def Let_def)
    moreover have "keysOk (disableConnection ?s1)"
      using k1 by (simp add: keysOk_def disableConnection_def)
    ultimately show ?thesis by (intro exI [of _ "disableConnection ?s1"]) (simp add: disableConnection_def)
  next
    case False
    with st have fin: "st = STATUS_STOPPED \<or> st = STATUS_ERROR \<or> st = STATUS_END" by simp
    have m1: "map_of (connections ?s1) e = Some (info\<lparr>status := st\<rparr>)"
      by (simp add: update_conv')
    have e1: "enabledConnection ?s1 = Some e" and b1: "muxStatus ?s1 = STATUS_BREAK"
      using en br by simp_all
    from removeConnection_enabled [OF m1 e1 b1] obtain s4 where
      r: "removeConnection e ?s1 = (None, checkForEnd s4)" and
      s4: "enabledConnection s4 = None" "muxStatus s4 = STATUS_RUNNING"
        "connections s4 = AList.delete e (connections ?s1)"
      by auto
    have eq: "snd (connectionOnStatus e st s) = updateStatus (checkForEnd s4)"
      using m fin r by (auto simp: connectionOnStatus_def Let_def)
    with i(1) have "connections s4 \<noteq> []" by auto
    then have same: "checkForEnd s4 = s4" by (simp add: checkForEnd_def)
    have "keysOk s4" using k1 s4 by (auto simp: keysOk_def dest: set_delete_subset)
    with eq same s4 show ?thesis by (intro exI [of _ s4]) simp
  qed
  then obtain x where x: "snd (connectionOnStatus e st s) = updateStatus x" "keysOk x"
    "muxStatus x = STATUS_RUNNING" "enabledConnection x = None"
    by blast
  from i have "i < length (connections x)" "status (snd (connections x ! i)) = STATUS_BREAK"
    "\<forall>j < i. status (snd (connections x ! j)) \<noteq> STATUS_BREAK"
    unfolding x(1) by simp_all
  from updateStatus_first [OF x(2) _ _ this] x(3)
  have "updateStatus x = enableConnection (fst (connections x ! i)) x" by simp
  then show ?thesis unfolding x(1) by (simp add: enableConnection_def)
qed

lemma break_report:
  "(c \<in> tracked (session cfg evs) \<and> muxStatus (session cfg evs) \<noteq> STATUS_BREAK \<and>
    muxStatus (session cfg evs) \<noteq> STATUS_END \<longrightarrow>
      (let s' = step (ConnectionStatus c STATUS_BREAK) (session cfg evs)
       in fst (connectionOnStatus c STATUS_BREAK (session cfg evs)) = None \<and>
          s' = snd (connectionOnStatus c STATUS_BREAK (session cfg evs)) \<and>
          muxStatus s' = STATUS_BREAK \<and>
          map fst (connections s') = map fst (connections (session cfg evs)) \<and>
          sorted_wrt (<) (map fst (connections s')) \<and>
          (\<exists>i < length (connections s').
              enabledConnection s' = Some (fst (connections s' ! i)) \<and>
              status (snd (connections s' ! i)) = STATUS_BREAK \<and>
              (\<forall>j < i. status (snd (connections s' ! j)) \<noteq> STATUS_BREAK)))) \<and>
   (c \<in> tracked (session cfg evs) \<and> muxStatus (session cfg evs) = STATUS_BREAK \<and>
    enabledConnection (session cfg evs) \<noteq> Some c \<longrightarrow>
      (let s' = step (ConnectionStatus c STATUS_BREAK) (session cfg evs)
       in fst (connectionOnStatus c STATUS_BREAK (session cfg evs)) = None \<and>
          s' = snd (connectionOnStatus c STATUS_BREAK (session cfg evs)) \<and>
          enabledConnection s' = enabledConnection (session cfg evs) \<and>
          muxStatus s' = STATUS_BREAK \<and>
          effects s' = effects (session cfg evs)))"
proof (intro conjI impI)
  let ?s = "session cfg evs"
  assume a: "c \<in> tracked ?s \<and> muxStatus ?s \<noteq> STATUS_BREAK \<and> muxStatus ?s \<noteq> STATUS_END"
  have wf: "wf ?s" by (rule wf_session)
  then have ok: "enabledOk ?s" and ord: "ordered ?s" by (simp_all add: wf_def)
  from a obtain info where m: "map_of (connections ?s) c = Some info"
    by (auto dest: tracked_map_of)
  then have mem: "(c, info) \<in> set (connections ?s)" by (rule map_of_SomeD)
  with ok have ci: "connection info = c" by (auto simp: enabledOk_def keysOk_def)
  from ok a have ne: "enabledConnection ?s \<noteq> Some c" by (auto simp: enabledOk_def)
  let ?s1 = "?s\<lparr>connections := AList.update c (info\<lparr>status := STATUS_BREAK\<rparr>) (connections ?s)\<rparr>"
  note eq = connectionOnStatus_break_other [OF m ne]
  have k1: "keysOk ?s1" using ok ci
    by (auto simp: enabledOk_def keysOk_def dest!: set_update_cases)
  have keys: "map fst (connections ?s1) = map fst (connections ?s)"
    using mem by (auto simp: update_keys intro: rev_image_eqI)
  have mem1: "(c, info\<lparr>status := STATUS_BREAK\<rparr>) \<in> set (connections ?s1)"
    using update_conv' [of c "info\<lparr>status := STATUS_BREAK\<rparr>" "connections ?s"]
    by (auto intro: map_of_SomeD)
  from updateStatus_selects [OF k1 _ _ mem1] a
  obtain i where i: "i < length (connections ?s1)"
      "updateStatus ?s1 = enableConnection (fst (connections ?s1 ! i)) ?s1"
      "status (snd (connections ?s1 ! i)) = STATUS_BREAK"
      "\<forall>j < i. status (snd (connections ?s1 ! j)) \<noteq> STATUS_BREAK"
    by auto
  have st: "step (ConnectionStatus c STATUS_BREAK) ?s = enableConnection (fst (connections ?s1 ! i)) ?s1"
    using a i(2) by (simp add: eq)
  have c': "connections (enableConnection (fst (connections ?s1 ! i)) ?s1) = connections ?s1"
    by (simp add: enableConnection_def)
  from ord keys have srt: "sorted_wrt (<) (map fst (connections ?s1))" by (simp add: ordered_def)
  show "let s' = step (ConnectionStatus c STATUS_BREAK) ?s
       in fst (connectionOnStatus c STATUS_BREAK ?s) = None \<and>
          s' = snd (connectionOnStatus c STATUS_BREAK ?s) \<and>
          muxStatus s' = STATUS_BREAK \<and>
          map fst (connections s') = map fst (connections ?s) \<and>
          sorted_wrt (<) (map fst (connections s')) \<and>
          (\<exists>i < length (connections s').
              enabledConnection s' = Some (fst (connections s' ! i)) \<and>
              status (snd (connections s' ! i)) = STATUS_BREAK \<and>
              (\<forall>j < i. status (snd (connections s' ! j)) \<noteq> STATUS_BREAK))"
    unfolding Let_def st c'
    using i a keys srt
    by (intro conjI) (simp_all add: eq enableConnection_def, metis)
next
  let ?s = "session cfg evs"
  assume a: "c \<in> tracked ?s \<and> muxStatus ?s = STATUS_BREAK \<and> enabledConnection ?s \<noteq> Some c"
  from a obtain info where m: "map_of (connections ?s) c = Some info"
    by (auto dest: tracked_map_of)
  from a have ne: "enabledConnection ?s \<noteq> Some c" by simp
  note eq = connectionOnStatus_break_other [OF m ne]
  show "let s' = step (ConnectionStatus c STATUS_BREAK) ?s
       in fst (connectionOnStatus c STATUS_BREAK ?s) = None \<and>
          s' = snd (connectionOnStatus c STATUS_BREAK ?s) \<and>
          enabledConnection s' = enabledConnection ?s \<and>
          muxStatus s' = STATUS_BREAK \<and>
          effects s' = effects ?s"
    using a by (simp add: eq updateStatus_def)
qed

section \<open>The claims\<close>

text \<open>
  Claim C1. After any sequence of events of a listening multiplexer, at most one connection
  is enabled; if one is enabled the global status is BREAK; and if the global status is
  RUNNING no connection is enabled.
\<close>

theorem C1_at_most_one_enabled:
  "card {c. enabledConnection (session cfg evs) = Some c} \<le> 1 \<and>
   (\<forall>c. enabledConnection (session cfg evs) = Some c \<longrightarrow>
        muxStatus (session cfg evs) = STATUS_BREAK) \<and>
   (muxStatus (session cfg evs) = STATUS_RUNNING \<longrightarrow> enabledConnection (session cfg evs) = None)"
proof -
  have "enabledOk (session cfg evs)" using wf_session [of cfg evs] by (simp add: wf_def)
  then have 1: "\<forall>c. enabledConnection (session cfg evs) = Some c \<longrightarrow>
        muxStatus (session cfg evs) = STATUS_BREAK"
    by (simp add: enabledOk_def)
  then have 2: "muxStatus (session cfg evs) = STATUS_RUNNING \<longrightarrow>
      enabledConnection (session cfg evs) = None"
    by (cases "enabledConnection (session cfg evs)") auto
  have 3: "card {c. enabledConnection (session cfg evs) = Some c} \<le> 1"
    by (cases "enabledConnection (session cfg evs)") simp_all
  from 1 2 3 show ?thesis by blast
qed

theorem C1_at_most_one_enabled_witness:
  "enabledConnection (session keepListening breakOnFirst) = Some 0 \<and>
   muxStatus (session keepListening breakOnFirst) = STATUS_BREAK \<and>
   muxStatus (session keepListening []) = STATUS_RUNNING \<and>
   enabledConnection (session keepListening []) = None"
proof -
  have e: "enabledConnection (session keepListening breakOnFirst) = Some 0"
    by code_simp
  have r: "muxStatus (session keepListening []) = STATUS_RUNNING"
    by code_simp
  from e r C1_at_most_one_enabled [of keepListening breakOnFirst]
    C1_at_most_one_enabled [of keepListening "[]"]
  show ?thesis by blast
qed

text \<open>
  Claim C2. When a tracked connection reports BREAK while the global status of the session
  is neither BREAK nor END, the status becomes BREAK and the enabled connection is the
  first entry of the map, in its order, whose cached status is BREAK; the map keeps its
  keys in the order the connections were attached; and that first entry is the reporter,
  since no other entry of a session is cached BREAK while the status is neither BREAK nor
  END. When the status is already BREAK and the reporting connection is not the enabled
  one, the enabled connection and the status stay as they are and nothing is emitted.
  The scan itself takes the earliest entry: on any state whose entries carry their own key
  and whose status is neither BREAK nor END, \<^verbatim>\<open>_updateStatus\<close> enables the entry at the
  least index cached BREAK; and when the enabled connection of a session resumes (RUNNING)
  or is removed (STOPPED, ERROR, END) while others are cached BREAK, the one enabled next
  is the earliest attached of them.
\<close>

theorem C2_first_break:
  "(c \<in> tracked (session cfg evs) \<and> muxStatus (session cfg evs) \<noteq> STATUS_BREAK \<and>
    muxStatus (session cfg evs) \<noteq> STATUS_END \<longrightarrow>
      (let s' = step (ConnectionStatus c STATUS_BREAK) (session cfg evs)
       in fst (connectionOnStatus c STATUS_BREAK (session cfg evs)) = None \<and>
          s' = snd (connectionOnStatus c STATUS_BREAK (session cfg evs)) \<and>
          muxStatus s' = STATUS_BREAK \<and>
          map fst (connections s') = map fst (connections (session cfg evs)) \<and>
          sorted_wrt (<) (map fst (connections s')) \<and>
          (\<exists>i < length (connections s').
              enabledConnection s' = Some (fst (connections s' ! i)) \<and>
              status (snd (connections s' ! i)) = STATUS_BREAK \<and>
              (\<forall>j < i. status (snd (connections s' ! j)) \<noteq> STATUS_BREAK)) \<and>
          enabledConnection s' = Some c)) \<and>
   (c \<in> tracked (session cfg evs) \<and> muxStatus (session cfg evs) = STATUS_BREAK \<and>
    enabledConnection (session cfg evs) \<noteq> Some c \<longrightarrow>
      (let s' = step (ConnectionStatus c STATUS_BREAK) (session cfg evs)
       in fst (connectionOnStatus c STATUS_BREAK (session cfg evs)) = None \<and>
          s' = snd (connectionOnStatus c STATUS_BREAK (session cfg evs)) \<and>
          enabledConnection s' = enabledConnection (session cfg evs) \<and>
          muxStatus s' = STATUS_BREAK \<and>
          effects s' = effects (session cfg evs))) \<and>
   ((\<forall>k info. (k, info) \<in> set (connections s) \<longrightarrow> connection info = k) \<and>
    muxStatus s \<noteq> STATUS_BREAK \<and> muxStatus s \<noteq> STATUS_END \<and>
    i < length (connections s) \<and> status (snd (connections s ! i)) = STATUS_BREAK \<and>
    (\<forall>j < i. status (snd (connections s ! j)) \<noteq> STATUS_BREAK) \<longrightarrow>
      updateStatus s = enableConnection (fst (connections s ! i)) s \<and>
      enabledConnection (updateStatus s) = Some (fst (connections s ! i)) \<and>
      muxStatus (updateStatus s) = STATUS_BREAK) \<and>
   (enabledConnection (session cfg evs) = Some e \<and>
    st \<in> {STATUS_RUNNING, STATUS_STOPPED, STATUS_ERROR, STATUS_END} \<and>
    n < length (connections (step (ConnectionStatus e st) (session cfg evs))) \<and>
    status (snd (connections (step (ConnectionStatus e st) (session cfg evs)) ! n))
      = STATUS_BREAK \<and>
    (\<forall>j < n. status (snd (connections (step (ConnectionStatus e st) (session cfg evs)) ! j))
               \<noteq> STATUS_BREAK) \<longrightarrow>
      enabledConnection (step (ConnectionStatus e st) (session cfg evs)) =
        Some (fst (connections (step (ConnectionStatus e st) (session cfg evs)) ! n)) \<and>
      muxStatus (step (ConnectionStatus e st) (session cfg evs)) = STATUS_BREAK \<and>
      sorted_wrt (<) (map fst (connections (step (ConnectionStatus e st) (session cfg evs)))))"
proof (intro conjI impI)
  let ?s = "session cfg evs"
  let ?s' = "step (ConnectionStatus c STATUS_BREAK) ?s"
  assume a: "c \<in> tracked ?s \<and> muxStatus ?s \<noteq> STATUS_BREAK \<and> muxStatus ?s \<noteq> STATUS_END"
  with break_report [of c cfg evs]
  have old: "fst (connectionOnStatus c STATUS_BREAK ?s) = None"
      "?s' = snd (connectionOnStatus c STATUS_BREAK ?s)"
      "muxStatus ?s' = STATUS_BREAK"
      "map fst (connections ?s') = map fst (connections ?s)"
      "sorted_wrt (<) (map fst (connections ?s'))"
      "\<exists>i < length (connections ?s').
          enabledConnection ?s' = Some (fst (connections ?s' ! i)) \<and>
          status (snd (connections ?s' ! i)) = STATUS_BREAK \<and>
          (\<forall>j < i. status (snd (connections ?s' ! j)) \<noteq> STATUS_BREAK)"
    unfolding Let_def by blast+
  from old(6) obtain i where i: "i < length (connections ?s')"
      "enabledConnection ?s' = Some (fst (connections ?s' ! i))"
      "status (snd (connections ?s' ! i)) = STATUS_BREAK"
    by blast
  from a obtain info where m: "map_of (connections ?s) c = Some info"
    by (auto dest: tracked_map_of)
  have ok: "enabledOk ?s" using wf_session [of cfg evs] by (simp add: wf_def)
  with a have ne: "enabledConnection ?s \<noteq> Some c" by (auto simp: enabledOk_def)
  have cs: "connections ?s' =
      AList.update c (info\<lparr>status := STATUS_BREAK\<rparr>) (connections ?s)"
    unfolding old(2) connectionOnStatus_break_other [OF m ne] by simp
  obtain key inf where p: "connections ?s' ! i = (key, inf)"
    by (cases "connections ?s' ! i")
  with i(1) have "(key, inf) \<in> set (connections ?s')" by (metis nth_mem)
  then have "(key, inf) \<in> set (connections ?s) \<or> key = c"
    unfolding cs by (auto dest: set_update_cases)
  moreover from noBreak_session [of cfg evs] a
  have "\<forall>k x. (k, x) \<in> set (connections ?s) \<longrightarrow> status x \<noteq> STATUS_BREAK"
    by (simp add: noBreak_def)
  moreover from i(3) p have "status inf = STATUS_BREAK" by simp
  ultimately have "key = c" by blast
  with i(2) p have en: "enabledConnection ?s' = Some c" by simp
  from old en show "let s' = step (ConnectionStatus c STATUS_BREAK) ?s
       in fst (connectionOnStatus c STATUS_BREAK ?s) = None \<and>
          s' = snd (connectionOnStatus c STATUS_BREAK ?s) \<and>
          muxStatus s' = STATUS_BREAK \<and>
          map fst (connections s') = map fst (connections ?s) \<and>
          sorted_wrt (<) (map fst (connections s')) \<and>
          (\<exists>i < length (connections s').
              enabledConnection s' = Some (fst (connections s' ! i)) \<and>
              status (snd (connections s' ! i)) = STATUS_BREAK \<and>
              (\<forall>j < i. status (snd (connections s' ! j)) \<noteq> STATUS_BREAK)) \<and>
          enabledConnection s' = Some c"
    unfolding Let_def by blast
next
  let ?s = "session cfg evs"
  assume "c \<in> tracked ?s \<and> muxStatus ?s = STATUS_BREAK \<and> enabledConnection ?s \<noteq> Some c"
  with break_report [of c cfg evs]
  show "let s' = step (ConnectionStatus c STATUS_BREAK) ?s
       in fst (connectionOnStatus c STATUS_BREAK ?s) = None \<and>
          s' = snd (connectionOnStatus c STATUS_BREAK ?s) \<and>
          enabledConnection s' = enabledConnection ?s \<and>
          muxStatus s' = STATUS_BREAK \<and>
          effects s' = effects ?s"
    by blast
next
  assume a: "(\<forall>k info. (k, info) \<in> set (connections s) \<longrightarrow> connection info = k) \<and>
    muxStatus s \<noteq> STATUS_BREAK \<and> muxStatus s \<noteq> STATUS_END \<and>
    i < length (connections s) \<and> status (snd (connections s ! i)) = STATUS_BREAK \<and>
    (\<forall>j < i. status (snd (connections s ! j)) \<noteq> STATUS_BREAK)"
  then have "keysOk s" by (simp add: keysOk_def)
  from updateStatus_first [OF this] a
  have u: "updateStatus s = enableConnection (fst (connections s ! i)) s" by blast
  then show "updateStatus s = enableConnection (fst (connections s ! i)) s" .
  from u show "enabledConnection (updateStatus s) = Some (fst (connections s ! i))"
    by (simp add: enableConnection_def)
  from u show "muxStatus (updateStatus s) = STATUS_BREAK"
    by (simp add: enableConnection_def)
next
  let ?s = "session cfg evs"
  let ?t = "step (ConnectionStatus e st) ?s"
  assume a: "enabledConnection ?s = Some e \<and>
    st \<in> {STATUS_RUNNING, STATUS_STOPPED, STATUS_ERROR, STATUS_END} \<and>
    n < length (connections ?t) \<and> status (snd (connections ?t ! n)) = STATUS_BREAK \<and>
    (\<forall>j < n. status (snd (connections ?t ! j)) \<noteq> STATUS_BREAK)"
  have ok: "enabledOk ?s" using wf_session [of cfg evs] by (simp add: wf_def)
  with a have tr: "e \<in> tracked ?s" by (simp add: enabledOk_def)
  then have eq: "?t = snd (connectionOnStatus e st ?s)" by simp
  from a have st: "st = STATUS_RUNNING \<or> st = STATUS_STOPPED \<or> st = STATUS_ERROR \<or> st = STATUS_END"
    by simp
  from a have en: "enabledConnection ?s = Some e" by simp
  from a have n: "n < length (connections (snd (connectionOnStatus e st ?s)))"
      "status (snd (connections (snd (connectionOnStatus e st ?s)) ! n)) = STATUS_BREAK"
      "\<forall>j < n. status (snd (connections (snd (connectionOnStatus e st ?s)) ! j)) \<noteq> STATUS_BREAK"
    unfolding eq by blast+
  from resume_or_removal_selects [OF ok en st n]
  show "enabledConnection ?t = Some (fst (connections ?t ! n))" and "muxStatus ?t = STATUS_BREAK"
    unfolding eq by blast+
  have "wf ?t" using wf_session [of cfg "evs @ [ConnectionStatus e st]"]
    by (simp add: session_def run_append)
  then show "sorted_wrt (<) (map fst (connections ?t))" by (simp add: wf_def ordered_def)
qed

theorem C2_first_break_witness:
  "muxStatus (session keepListening twoRunning) = STATUS_RUNNING \<and>
   muxStatus (step (ConnectionStatus 1 STATUS_BREAK) (session keepListening twoRunning))
     = STATUS_BREAK \<and>
   enabledConnection (step (ConnectionStatus 1 STATUS_BREAK) (session keepListening twoRunning))
     = Some 1 \<and>
   enabledConnection (session keepListening firstOfTwoBroken) = Some 0 \<and>
   enabledConnection
     (step (ConnectionStatus 1 STATUS_BREAK) (session keepListening firstOfTwoBroken)) = Some 0 \<and>
   effects (step (ConnectionStatus 1 STATUS_BREAK) (session keepListening firstOfTwoBroken))
     = effects (session keepListening firstOfTwoBroken) \<and>
   enabledConnection (session keepListening threeBroken) = Some 0 \<and>
   map (\<lambda>(k, info). (k, status info))
     (connections (step (ConnectionStatus 0 STATUS_RUNNING) (session keepListening threeBroken)))
     = [(0, STATUS_RUNNING), (1, STATUS_BREAK), (2, STATUS_BREAK)] \<and>
   enabledConnection
     (step (ConnectionStatus 0 STATUS_RUNNING) (session keepListening threeBroken)) = Some 1 \<and>
   map (\<lambda>(k, info). (k, status info))
     (connections (step (ConnectionStatus 0 STATUS_END) (session keepListening threeBroken)))
     = [(1, STATUS_BREAK), (2, STATUS_BREAK)] \<and>
   enabledConnection
     (step (ConnectionStatus 0 STATUS_END) (session keepListening threeBroken)) = Some 1 \<and>
   enabledConnection
     (updateStatus (disableConnection (session keepListening
        (threeBroken @ [ConnectionStatus 0 STATUS_STARTING])))) = Some 1"
proof -
  let ?run = "session keepListening twoRunning"
  let ?brk = "session keepListening firstOfTwoBroken"
  let ?three = "session keepListening threeBroken"
  let ?resumed = "step (ConnectionStatus 0 STATUS_RUNNING) ?three"
  let ?removed = "step (ConnectionStatus 0 STATUS_END) ?three"
  let ?x = "disableConnection (session keepListening
              (threeBroken @ [ConnectionStatus 0 STATUS_STARTING]))"
  have h1: "1 \<in> tracked ?run" "muxStatus ?run = STATUS_RUNNING"
    by code_simp+
  then have h1': "muxStatus ?run \<noteq> STATUS_BREAK" "muxStatus ?run \<noteq> STATUS_END"
    by simp_all
  have h2: "1 \<in> tracked ?brk" "muxStatus ?brk = STATUS_BREAK" "enabledConnection ?brk = Some 0"
    by code_simp+
  then have h2': "enabledConnection ?brk \<noteq> Some 1"
    by simp
  from h1 h1' C2_first_break [of 1 keepListening twoRunning]
  have a: "muxStatus (step (ConnectionStatus 1 STATUS_BREAK) ?run) = STATUS_BREAK \<and>
           enabledConnection (step (ConnectionStatus 1 STATUS_BREAK) ?run) = Some 1"
    unfolding Let_def by blast
  from h2 h2' C2_first_break [of 1 keepListening firstOfTwoBroken]
  have b: "enabledConnection (step (ConnectionStatus 1 STATUS_BREAK) ?brk) = enabledConnection ?brk \<and>
           effects (step (ConnectionStatus 1 STATUS_BREAK) ?brk) = effects ?brk"
    unfolding Let_def by blast
  have h3: "enabledConnection ?three = Some 0"
    by code_simp
  have l1: "map (\<lambda>(k, info). (k, status info)) (connections ?resumed)
              = [(0, STATUS_RUNNING), (1, STATUS_BREAK), (2, STATUS_BREAK)]"
    by code_simp
  have r1: "1 < length (connections ?resumed)" "fst (connections ?resumed ! 1) = 1"
      "status (snd (connections ?resumed ! 1)) = STATUS_BREAK"
      "status (snd (connections ?resumed ! 0)) \<noteq> STATUS_BREAK"
    by code_simp+
  then have r1': "\<forall>j < 1. status (snd (connections ?resumed ! j)) \<noteq> STATUS_BREAK"
    by simp
  from h3 r1 r1'
    C2_first_break [where cfg = keepListening and evs = threeBroken and e = 0
                      and st = STATUS_RUNNING and n = 1]
  have c: "enabledConnection ?resumed = Some 1"
    by simp
  have l2: "map (\<lambda>(k, info). (k, status info)) (connections ?removed)
              = [(1, STATUS_BREAK), (2, STATUS_BREAK)]"
    by code_simp
  have r2: "0 < length (connections ?removed)" "fst (connections ?removed ! 0) = 1"
      "status (snd (connections ?removed ! 0)) = STATUS_BREAK"
    by code_simp+
  from h3 r2
    C2_first_break [where cfg = keepListening and evs = threeBroken and e = 0
                      and st = STATUS_END and n = 0]
  have d: "enabledConnection ?removed = Some 1"
    by simp
  have x1: "\<forall>p \<in> set (connections ?x). connection (snd p) = fst p"
      "muxStatus ?x = STATUS_RUNNING" "1 < length (connections ?x)"
      "fst (connections ?x ! 1) = 1" "status (snd (connections ?x ! 1)) = STATUS_BREAK"
      "status (snd (connections ?x ! 0)) \<noteq> STATUS_BREAK"
    by code_simp+
  then have x1': "\<forall>k info. (k, info) \<in> set (connections ?x) \<longrightarrow> connection info = k"
      "\<forall>j < 1. status (snd (connections ?x ! j)) \<noteq> STATUS_BREAK"
      "muxStatus ?x \<noteq> STATUS_BREAK" "muxStatus ?x \<noteq> STATUS_END"
    by auto
  from x1(3,5) x1'
    C2_first_break [where s = ?x and i = 1, THEN conjunct2, THEN conjunct2, THEN conjunct1]
  have "enabledConnection (updateStatus ?x) = Some (fst (connections ?x ! 1))"
    by blast
  with x1(4) have f: "enabledConnection (updateStatus ?x) = Some 1"
    by (simp only:)
  from a b c d f h1 h2 h3 l1 l2 show ?thesis by simp
qed

text \<open>
  Claim C3. When the enabled connection of a session is removed, \<^verbatim>\<open>_removeConnection\<close>
  hands to the end-of-life check a state in which no connection is enabled, the status is
  RUNNING and RUNNING has just been emitted; if the check ends the session, END is emitted
  after that RUNNING. This holds for a terminal status of the enabled connection
  (STOPPED, ERROR, END) and for \<^verbatim>\<open>dispose\<close>, which emits RUNNING and then END.
\<close>

theorem C3_removing_enabled:
  "enabledConnection (session cfg evs) = Some c \<longrightarrow>
     (\<exists>s4. removeConnection c (session cfg evs) = (None, checkForEnd s4) \<and>
           enabledConnection s4 = None \<and> muxStatus s4 = STATUS_RUNNING \<and>
           emitted (effects s4) = emitted (effects (session cfg evs)) @ [STATUS_RUNNING]) \<and>
     enabledConnection (snd (removeConnection c (session cfg evs))) = None \<and>
     emitted (effects (snd (removeConnection c (session cfg evs)))) =
       emitted (effects (session cfg evs)) @
         (if muxStatus (snd (removeConnection c (session cfg evs))) = STATUS_END
          then [STATUS_RUNNING, STATUS_END] else [STATUS_RUNNING]) \<and>
     (\<forall>st \<in> {STATUS_STOPPED, STATUS_ERROR, STATUS_END}.
        \<exists>rest. emitted (effects (step (ConnectionStatus c st) (session cfg evs))) =
                 emitted (effects (session cfg evs)) @ STATUS_RUNNING # rest \<and>
               (muxStatus (step (ConnectionStatus c st) (session cfg evs)) = STATUS_END
                  \<longrightarrow> rest = [STATUS_END]) \<and>
               c \<notin> tracked (step (ConnectionStatus c st) (session cfg evs))) \<and>
     emitted (effects (step Dispose (session cfg evs))) =
       emitted (effects (session cfg evs)) @ [STATUS_RUNNING, STATUS_END] \<and>
     enabledConnection (step Dispose (session cfg evs)) = None"
proof
  let ?s = "session cfg evs"
  assume en: "enabledConnection ?s = Some c"
  have wf: "wf ?s" by (rule wf_session)
  then have ok: "enabledOk ?s" and ord: "ordered ?s" by (simp_all add: wf_def)
  with en have tr: "c \<in> tracked ?s" and br: "muxStatus ?s = STATUS_BREAK"
    by (simp_all add: enabledOk_def)
  from tr obtain info where m: "map_of (connections ?s) c = Some info"
    by (auto dest: tracked_map_of)
  from removeConnection_enabled [OF m en br] obtain s4 where
    r: "removeConnection c ?s = (None, checkForEnd s4)" and
    s4: "enabledConnection s4 = None" "muxStatus s4 = STATUS_RUNNING"
      "emitted (effects s4) = emitted (effects ?s) @ [STATUS_RUNNING]"
    by auto
  have 1: "\<exists>s4. removeConnection c ?s = (None, checkForEnd s4) \<and>
           enabledConnection s4 = None \<and> muxStatus s4 = STATUS_RUNNING \<and>
           emitted (effects s4) = emitted (effects ?s) @ [STATUS_RUNNING]"
    using r s4 by blast
  have 2: "enabledConnection (snd (removeConnection c ?s)) = None"
    using r s4 by simp
  have 3: "emitted (effects (snd (removeConnection c ?s))) =
       emitted (effects ?s) @
         (if muxStatus (snd (removeConnection c ?s)) = STATUS_END
          then [STATUS_RUNNING, STATUS_END] else [STATUS_RUNNING])"
    using r s4 by (simp add: checkForEnd_emitted)
  have 4: "\<exists>rest. emitted (effects (step (ConnectionStatus c st) ?s)) =
                 emitted (effects ?s) @ STATUS_RUNNING # rest \<and>
               (muxStatus (step (ConnectionStatus c st) ?s) = STATUS_END \<longrightarrow> rest = [STATUS_END]) \<and>
               c \<notin> tracked (step (ConnectionStatus c st) ?s)"
    if "st \<in> {STATUS_STOPPED, STATUS_ERROR, STATUS_END}" for st
  proof -
    from that have "st = STATUS_STOPPED \<or> st = STATUS_ERROR \<or> st = STATUS_END" by simp
    from terminal_enabled [OF m en br this] tr show ?thesis by auto
  qed
  have 5: "emitted (effects (step Dispose ?s)) = emitted (effects ?s) @ [STATUS_RUNNING, STATUS_END] \<and>
     enabledConnection (step Dispose ?s) = None"
    using dispose_enabled [OF en ok ord] by simp
  from 1 2 3 4 5 show "(\<exists>s4. removeConnection c ?s = (None, checkForEnd s4) \<and>
           enabledConnection s4 = None \<and> muxStatus s4 = STATUS_RUNNING \<and>
           emitted (effects s4) = emitted (effects ?s) @ [STATUS_RUNNING]) \<and>
     enabledConnection (snd (removeConnection c ?s)) = None \<and>
     emitted (effects (snd (removeConnection c ?s))) =
       emitted (effects ?s) @
         (if muxStatus (snd (removeConnection c ?s)) = STATUS_END
          then [STATUS_RUNNING, STATUS_END] else [STATUS_RUNNING]) \<and>
     (\<forall>st \<in> {STATUS_STOPPED, STATUS_ERROR, STATUS_END}.
        \<exists>rest. emitted (effects (step (ConnectionStatus c st) ?s)) =
                 emitted (effects ?s) @ STATUS_RUNNING # rest \<and>
               (muxStatus (step (ConnectionStatus c st) ?s) = STATUS_END
                  \<longrightarrow> rest = [STATUS_END]) \<and>
               c \<notin> tracked (step (ConnectionStatus c st) ?s)) \<and>
     emitted (effects (step Dispose ?s)) =
       emitted (effects ?s) @ [STATUS_RUNNING, STATUS_END] \<and>
     enabledConnection (step Dispose ?s) = None"
    by blast
qed

theorem C3_removing_enabled_witness:
  "enabledConnection (session keepListening bothBroken) = Some 0 \<and>
   enabledConnection (snd (removeConnection 0 (session keepListening bothBroken))) = None \<and>
   emitted (effects (step Dispose (session keepListening bothBroken))) =
     emitted (effects (session keepListening bothBroken)) @ [STATUS_RUNNING, STATUS_END] \<and>
   (\<exists>rest. emitted (effects (step (ConnectionStatus 0 STATUS_END)
                                 (session keepListening bothBroken))) =
            emitted (effects (session keepListening bothBroken)) @ STATUS_RUNNING # rest)"
proof -
  have h: "enabledConnection (session keepListening bothBroken) = Some 0"
    by code_simp
  from h C3_removing_enabled [of keepListening bothBroken 0]
  show ?thesis by blast
qed



text \<open>
  Claim C5. With no connection enabled, \<^verbatim>\<open>evaluateOnCallFrame\<close>, \<^verbatim>\<open>getScopesForFrame\<close>
  and \<^verbatim>\<open>sendContinuationCommand\<close> fail with the error "No connection",
  \<^verbatim>\<open>getStackFrames\<close> answers with an empty stack and \<^verbatim>\<open>sendBreakCommand\<close> with false.
  With no connection enabled, or with a status other than BREAK, \<^verbatim>\<open>getProperties\<close> goes
  to the dummy connection, and fails with "No connection" only when there is none.
\<close>

theorem C5_no_connection:
  "(enabledConnection s = None \<longrightarrow>
      evaluateOnCallFrame frameIndex expression s = Inl (Error ''No connection'') \<and>
      getScopesForFrame frameIndex s = Inl (Error ''No connection'') \<and>
      sendContinuationCommand cmd s = Inl (Error ''No connection'') \<and>
      getStackFrames s = Inr (Stack []) \<and>
      sendBreakCommand s = Inr (Boolean False)) \<and>
   (enabledConnection s = None \<or> muxStatus s \<noteq> STATUS_BREAK \<longrightarrow>
      getProperties remoteId s =
        (case dummyConnection s of
           Some d \<Rightarrow> Inr (Forwarded d (GetProperties remoteId))
         | None \<Rightarrow> Inl (Error ''No connection'')))"
  by (auto simp: evaluateOnCallFrame_def getScopesForFrame_def sendContinuationCommand_def
        getStackFrames_def sendBreakCommand_def getProperties_def noConnectionError_def Let_def
        split: option.splits)

theorem C5_no_connection_witness:
  "enabledConnection (session keepListening dummyReady) = None \<and>
   dummyConnection (session keepListening dummyReady) = Some 0 \<and>
   muxStatus (session keepListening dummyReady) = STATUS_RUNNING \<and>
   getProperties ''id'' (session keepListening dummyReady)
     = Inr (Forwarded 0 (GetProperties ''id'')) \<and>
   getStackFrames (session keepListening dummyReady) = Inr (Stack []) \<and>
   sendBreakCommand (session keepListening dummyReady) = Inr (Boolean False) \<and>
   evaluateOnCallFrame 0 ''$x'' (session keepListening dummyReady)
     = Inl (Error ''No connection'') \<and>
   getProperties ''id'' (session keepListening []) = Inl (Error ''No connection'')"
proof -
  have h: "enabledConnection (session keepListening dummyReady) = None"
    "dummyConnection (session keepListening dummyReady) = Some 0"
    "muxStatus (session keepListening dummyReady) = STATUS_RUNNING"
    "enabledConnection (session keepListening []) = None"
    "dummyConnection (session keepListening []) = None"
    by code_simp+
  from h C5_no_connection [of "session keepListening dummyReady" 0 "''$x''" _ "''id''"]
    C5_no_connection [of "session keepListening []" _ _ _ "''id''"]
  show ?thesis by simp
qed

text \<open>
  Claim C6, as stated, fails: when the enabled connection reports BREAK again, BREAK is
  delivered a second time although the status has not changed.
\<close>

theorem C6_duplicate_break_counterexample:
  "emitted (effects (session keepListening
     [realAttach, StatusSettled 0 (Resolved STATUS_BREAK), ConnectionStatus 0 STATUS_BREAK]))
   = [STATUS_BREAK, STATUS_BREAK]"
  by code_simp

text \<open>
  Claim C6, amended. \<^verbatim>\<open>_setStatus\<close> delivers a status exactly when it changes the
  global status, and in a session two consecutive deliveries carry the same status only
  if that status is BREAK (the re-emission for the enabled connection breaking again).
\<close>

theorem C6_repeats_only_break:
  "(\<forall>i. Suc i < length (emitted (effects (session cfg evs))) \<and>
        emitted (effects (session cfg evs)) ! i = emitted (effects (session cfg evs)) ! Suc i \<longrightarrow>
        emitted (effects (session cfg evs)) ! i = STATUS_BREAK) \<and>
   (\<forall>st s. emitted (effects (setStatus st s)) =
        (if st \<noteq> muxStatus s then emitted (effects s) @ [st] else emitted (effects s)))"
proof -
  have "emitOk (session cfg evs)" using wf_session [of cfg evs] by (simp add: wf_def)
  then have "repeatsOnlyBreak (emitted (effects (session cfg evs)))"
    by (simp add: emitOk_def Let_def)
  then show ?thesis by (auto dest: repeatsOnlyBreak_nth)
qed

theorem C6_repeats_only_break_witness:
  "emitted (effects (session keepListening stepThenResume)) ! 0 = STATUS_BREAK"
proof -
  have h: "Suc 0 < length (emitted (effects (session keepListening stepThenResume))) \<and>
           emitted (effects (session keepListening stepThenResume)) ! 0 =
           emitted (effects (session keepListening stepThenResume)) ! Suc 0"
    by code_simp
  from h C6_repeats_only_break [of keepListening stepThenResume]
  show ?thesis by blast
qed

text \<open>
  Claim C7. When the enabled connection of a session reports BREAK again, the handler
  returns normally, exactly one effect is added, the emission of BREAK, the enabled
  connection is the same and the global status was and remains BREAK.
\<close>

theorem C7_rebreak:
  "enabledConnection (session cfg evs) = Some c \<longrightarrow>
     fst (connectionOnStatus c STATUS_BREAK (session cfg evs)) = None \<and>
     step (ConnectionStatus c STATUS_BREAK) (session cfg evs) =
       snd (connectionOnStatus c STATUS_BREAK (session cfg evs)) \<and>
     effects (step (ConnectionStatus c STATUS_BREAK) (session cfg evs)) =
       effects (session cfg evs) @ [Emit STATUS_BREAK] \<and>
     enabledConnection (step (ConnectionStatus c STATUS_BREAK) (session cfg evs)) = Some c \<and>
     muxStatus (session cfg evs) = STATUS_BREAK \<and>
     muxStatus (step (ConnectionStatus c STATUS_BREAK) (session cfg evs)) = STATUS_BREAK"
proof
  let ?s = "session cfg evs"
  assume en: "enabledConnection ?s = Some c"
  have ok: "enabledOk ?s" using wf_session [of cfg evs] by (simp add: wf_def)
  with en have tr: "c \<in> tracked ?s" and br: "muxStatus ?s = STATUS_BREAK"
    by (simp_all add: enabledOk_def)
  from tr obtain info where m: "map_of (connections ?s) c = Some info"
    by (auto dest: tracked_map_of)
  note eq = connectionOnStatus_break_enabled [OF m en]
  show "fst (connectionOnStatus c STATUS_BREAK ?s) = None \<and>
     step (ConnectionStatus c STATUS_BREAK) ?s = snd (connectionOnStatus c STATUS_BREAK ?s) \<and>
     effects (step (ConnectionStatus c STATUS_BREAK) ?s) = effects ?s @ [Emit STATUS_BREAK] \<and>
     enabledConnection (step (ConnectionStatus c STATUS_BREAK) ?s) = Some c \<and>
     muxStatus ?s = STATUS_BREAK \<and>
     muxStatus (step (ConnectionStatus c STATUS_BREAK) ?s) = STATUS_BREAK"
    using tr br en by (simp add: eq emitStatus_def)
qed

theorem C7_rebreak_witness:
  "enabledConnection (session keepListening breakOnFirst) = Some 0 \<and>
   enabledConnection (step (ConnectionStatus 0 STATUS_BREAK) (session keepListening breakOnFirst))
     = Some 0 \<and>
   muxStatus (step (ConnectionStatus 0 STATUS_BREAK) (session keepListening breakOnFirst))
     = STATUS_BREAK \<and>
   effects (step (ConnectionStatus 0 STATUS_BREAK) (session keepListening breakOnFirst))
     = effects (session keepListening breakOnFirst) @ [Emit STATUS_BREAK]"
proof -
  have h: "enabledConnection (session keepListening breakOnFirst) = Some 0"
    by code_simp
  from h C7_rebreak [of keepListening breakOnFirst 0]
  show ?thesis by blast
qed

text \<open>
  Claim C8 holds while the connection is still in the map when its status query settles
  (\<open>onAttach_resume_rejected_tracked\<close>). It fails when the connection was removed in the
  meantime, by \<^verbatim>\<open>dispose\<close> or by a terminal status event: the resumed \<^verbatim>\<open>_onAttach\<close>
  calls \<^verbatim>\<open>_connectionOnStatus\<close>, which dereferences the missing map entry.
\<close>

theorem C8_settle_after_removal:
  "0 \<in> set (awaitingStatus (session keepListening [realAttach, Dispose])) \<and>
   0 \<notin> tracked (session keepListening [realAttach, Dispose]) \<and>
   fst (onAttach_resume 0 (Rejected (Exception ''socket closed''))
          (session keepListening [realAttach, Dispose])) = Some TypeError \<and>
   0 \<in> set (awaitingStatus
              (session keepListening [realAttach, ConnectionStatus 0 STATUS_END])) \<and>
   0 \<notin> tracked (session keepListening [realAttach, ConnectionStatus 0 STATUS_END]) \<and>
   fst (onAttach_resume 0 (Rejected (Exception ''socket closed''))
          (session keepListening [realAttach, ConnectionStatus 0 STATUS_END])) = Some TypeError"
  by code_simp

text \<open>
  Claim C9. In a session a dummy connection, installed or still waiting for its run
  command, is not in the tracked map, was never given to the breakpoint store and is not
  the enabled connection; the enabled connection is always a tracked one, and every
  tracked connection was given to the store.
\<close>

theorem C9_dummy_never_tracked:
  "(\<forall>d. dummyConnection (session cfg evs) = Some d \<or> d \<in> set (awaitingDummy (session cfg evs)) \<longrightarrow>
      d \<notin> tracked (session cfg evs) \<and>
      d \<notin> set (storeConnections (breakpointStore (session cfg evs))) \<and>
      enabledConnection (session cfg evs) \<noteq> Some d) \<and>
   (\<forall>c. enabledConnection (session cfg evs) = Some c \<longrightarrow> c \<in> tracked (session cfg evs)) \<and>
   tracked (session cfg evs) \<subseteq> set (storeConnections (breakpointStore (session cfg evs)))"
proof -
  have s: "separate (session cfg evs)" and e: "enabledOk (session cfg evs)"
    using wf_session [of cfg evs] by (simp_all add: wf_def)
  from e have 1: "\<forall>c. enabledConnection (session cfg evs) = Some c \<longrightarrow> c \<in> tracked (session cfg evs)"
    by (simp add: enabledOk_def)
  from s have 2: "tracked (session cfg evs) \<subseteq> set (storeConnections (breakpointStore (session cfg evs)))"
    by (simp add: separate_def)
  from s have 3: "\<forall>d. dummyConnection (session cfg evs) = Some d \<or> d \<in> set (awaitingDummy (session cfg evs)) \<longrightarrow>
      d \<notin> set (storeConnections (breakpointStore (session cfg evs)))"
    by (auto simp: separate_def)
  from 1 2 3 show ?thesis by blast
qed

theorem C9_dummy_never_tracked_witness:
  "dummyConnection (session keepListening breakWithDummy) = Some 1 \<and>
   enabledConnection (session keepListening breakWithDummy) = Some 0 \<and>
   1 \<notin> tracked (session keepListening breakWithDummy) \<and>
   1 \<notin> set (storeConnections (breakpointStore (session keepListening breakWithDummy))) \<and>
   0 \<in> tracked (session keepListening breakWithDummy)"
proof -
  have d: "dummyConnection (session keepListening breakWithDummy) = Some 1"
    by code_simp
  have e: "enabledConnection (session keepListening breakWithDummy) = Some 0"
    by code_simp
  from d e C9_dummy_never_tracked [of keepListening breakWithDummy]
  show ?thesis by blast
qed

text \<open>
  Claim C10. \<^verbatim>\<open>listen\<close> moves the status from STARTING to RUNNING by assignment and
  delivers nothing to \<^verbatim>\<open>onStatus\<close> subscribers, where \<^verbatim>\<open>_setStatus\<close> would have
  delivered RUNNING; every status a session delivers afterwards is BREAK, RUNNING or END.
\<close>

theorem C10_listen_is_silent:
  "muxStatus (newConnectionMultiplexer cfg) = STATUS_STARTING \<and>
   muxStatus (listen s) = STATUS_RUNNING \<and>
   emitted (effects (listen s)) = emitted (effects s) \<and>
   emitted (effects (listen (newConnectionMultiplexer cfg))) = [] \<and>
   emitted (effects (setStatus STATUS_RUNNING (newConnectionMultiplexer cfg))) = [STATUS_RUNNING] \<and>
   set (emitted (effects (session cfg evs))) \<subseteq> {STATUS_BREAK, STATUS_RUNNING, STATUS_END}"
proof -
  have "emitOk (session cfg evs)" using wf_session [of cfg evs] by (simp add: wf_def)
  then have "set (emitted (effects (session cfg evs))) \<subseteq> {STATUS_BREAK, STATUS_RUNNING, STATUS_END}"
    by (auto simp: emitOk_def Let_def)
  then show ?thesis
    by (simp add: newConnectionMultiplexer_def listen_def Let_def perform_def)
qed

end
